theory Spec2Isabelle
  imports Complex_Main "HOL-Library.Word" "HOL-Library.Monad_Syntax"
begin

unbundle bit_operations_syntax

section \<open>ankerl::unordered_dense: the hash mixer\<close>

text \<open>
  \<open>detail::wyhash::mum\<close> multiplies two 64-bit words into a 128-bit product and returns
  its low and high halves; \<open>mix\<close> folds them with XOR.
\<close>

definition mum :: "64 word \<Rightarrow> 64 word \<Rightarrow> 64 word \<times> 64 word" where
  "mum a b = (let r = (ucast a :: 128 word) * (ucast b :: 128 word)
              in (ucast r, ucast (drop_bit 64 r)))"

definition mix :: "64 word \<Rightarrow> 64 word \<Rightarrow> 64 word" where
  "mix a b = (case mum a b of (a', b') \<Rightarrow> a' XOR b')"

section \<open>The table: data\<close>

text \<open>
  The template argument \<open>Hash\<close> with its member \<open>m_hash\<close>: the hash callable and whether
  the type declares \<open>is_avalanching\<close>. \<open>KeyEqual\<close> is the default \<open>std::equal_to\<close>, that
  is HOL equality on the key type. The map variant is modelled (\<open>T\<close> not \<open>void\<close>): a
  value is a pair of key and mapped value.
\<close>

record 'k hasher =
  hash_fn :: "'k \<Rightarrow> 64 word"
  is_avalanching :: bool

record Bucket =
  dist_and_fingerprint :: "32 word"
  value_idx :: "32 word"

text \<open>
  The members of \<open>table\<close>. The pair \<open>m_buckets_start\<close>, \<open>m_buckets_end\<close> is one optional
  array: \<open>None\<close> is the null pointer pair of a table that never allocated, \<open>Some bs\<close> an
  array of \<open>length bs\<close> slots; a pointer into the array is an index. The float
  \<open>m_max_load_factor\<close> is the real number it denotes (the default \<open>0.8f\<close> is
  \<open>13421773 / 2^24\<close>); its products with a power of two are exact in float arithmetic.
\<close>

record ('k, 'v) table =
  m_values :: "('k \<times> 'v) list"
  m_buckets :: "Bucket list option"
  m_max_bucket_capacity :: "32 word"
  m_max_load_factor :: real
  m_shifts :: "8 word"

definition BUCKET_DIST_INC :: "32 word" where
  "BUCKET_DIST_INC = push_bit 8 1"

definition BUCKET_FINGERPRINT_MASK :: "32 word" where
  "BUCKET_FINGERPRINT_MASK = BUCKET_DIST_INC - 1"

definition INITIAL_SHIFTS :: "8 word" where
  "INITIAL_SHIFTS = 64 - 3"

definition default_max_load_factor :: real where
  "default_max_load_factor = 13421773 / 16777216"

definition empty_bucket :: Bucket where
  "empty_bucket = \<lparr>dist_and_fingerprint = 0, value_idx = 0\<rparr>"

section \<open>The table: private operations\<close>

text \<open>
  Every operation that dereferences a bucket pointer, indexes the value array or shifts
  by a run-time amount returns an option: \<open>None\<close> stands for an execution with no defined
  result (a null or out-of-range access, a shift by 64 or more, a loop that never ends).
\<close>

definition bucket_next :: "Bucket list \<Rightarrow> nat \<Rightarrow> nat" where
  "bucket_next bs bucket = (if bucket + 1 = length bs then 0 else bucket + 1)"

definition mixed_hash :: "'k hasher \<Rightarrow> 'k \<Rightarrow> 64 word" where
  "mixed_hash H key =
     (if is_avalanching H then hash_fn H key
      else mix (hash_fn H key) 0x9E3779B97F4A7C15)"

definition dist_and_fingerprint_from_hash :: "64 word \<Rightarrow> 32 word" where
  "dist_and_fingerprint_from_hash hash =
     ucast ((ucast BUCKET_DIST_INC :: 64 word) OR (hash AND ucast BUCKET_FINGERPRINT_MASK))"

definition bucket_from_hash :: "('k, 'v) table \<Rightarrow> 64 word \<Rightarrow> nat option" where
  "bucket_from_hash st hash =
     (if unat (m_shifts st) < 64 then Some (unat (drop_bit (unat (m_shifts st)) hash))
      else None)"

definition get_key :: "'k \<times> 'v \<Rightarrow> 'k" where
  "get_key vt = fst vt"

partial_function (option) next_while_less_loop ::
  "Bucket list \<Rightarrow> 32 word \<Rightarrow> nat \<Rightarrow> (32 word \<times> nat) option" where
  "next_while_less_loop bs d bucket =
     (if bucket < length bs then
        (if d < dist_and_fingerprint (bs ! bucket)
         then next_while_less_loop bs (d + BUCKET_DIST_INC) (bucket_next bs bucket)
         else Some (d, bucket))
      else None)"

declare next_while_less_loop.simps [code]

definition next_while_less ::
  "'k hasher \<Rightarrow> ('k, 'v) table \<Rightarrow> 'k \<Rightarrow> (32 word \<times> nat) option" where
  "next_while_less H st key =
     (let hash = mixed_hash H key;
          d = dist_and_fingerprint_from_hash hash
      in do {
        bs \<leftarrow> m_buckets st;
        bucket \<leftarrow> bucket_from_hash st hash;
        next_while_less_loop bs d bucket
      })"

partial_function (option) place_and_shift_up_loop ::
  "Bucket list \<Rightarrow> Bucket \<Rightarrow> nat \<Rightarrow> Bucket list option" where
  "place_and_shift_up_loop bs bucket place =
     (if place < length bs then
        (if dist_and_fingerprint (bs ! place) \<noteq> 0
         then place_and_shift_up_loop (bs[place := bucket])
                ((bs ! place)\<lparr>dist_and_fingerprint :=
                    dist_and_fingerprint (bs ! place) + BUCKET_DIST_INC\<rparr>)
                (bucket_next bs place)
         else Some (bs[place := bucket]))
      else None)"

declare place_and_shift_up_loop.simps [code]

definition place_and_shift_up ::
  "('k, 'v) table \<Rightarrow> Bucket \<Rightarrow> nat \<Rightarrow> ('k, 'v) table option" where
  "place_and_shift_up st bucket place = do {
     bs \<leftarrow> m_buckets st;
     bs' \<leftarrow> place_and_shift_up_loop bs bucket place;
     Some (st\<lparr>m_buckets := Some bs'\<rparr>)
   }"

text \<open>
  \<open>UINT64_C(1) << (64U - shifts)\<close>: the subtraction is in \<open>unsigned int\<close>, the shift is
  defined for amounts below 64 only.
\<close>

definition calc_num_buckets :: "8 word \<Rightarrow> 64 word option" where
  "calc_num_buckets shifts =
     (let amount = (64 :: 32 word) - ucast shifts
      in if amount < 64 then Some (push_bit (unat amount) 1) else None)"

text \<open>
  \<open>static_cast<uint64_t>\<close> and \<open>static_cast<uint32_t>\<close> of a float: truncation towards
  zero, defined when the truncated value fits.
\<close>

definition float_to_uint64 :: "real \<Rightarrow> 64 word option" where
  "float_to_uint64 x =
     (if x \<le> - 1 \<or> 2 ^ 64 \<le> x then None
      else Some (if x < 0 then 0 else word_of_int \<lfloor>x\<rfloor>))"


partial_function (option) calc_shifts_loop ::
  "real \<Rightarrow> 64 word \<Rightarrow> 8 word \<Rightarrow> 8 word option" where
  "calc_shifts_loop mlf s shifts = do {
     num_buckets \<leftarrow> calc_num_buckets shifts;
     c \<leftarrow> float_to_uint64 (real (unat num_buckets) * mlf);
     if c < s then calc_shifts_loop mlf s (shifts - 1) else Some shifts
   }"

declare calc_shifts_loop.simps [code]

definition calc_shifts_for_size :: "('k, 'v) table \<Rightarrow> 64 word \<Rightarrow> 8 word option" where
  "calc_shifts_for_size st s = calc_shifts_loop (m_max_load_factor st) s INITIAL_SHIFTS"

definition size_tbl :: "('k, 'v) table \<Rightarrow> nat" where
  "size_tbl st = length (m_values st)"

definition empty_tbl :: "('k, 'v) table \<Rightarrow> bool" where
  "empty_tbl st = (m_values st = [])"

definition end_it :: "('k, 'v) table \<Rightarrow> nat" where
  "end_it st = length (m_values st)"

definition max_size :: "('k, 'v) table \<Rightarrow> nat" where
  "max_size st = unat (- 1 :: 32 word)"

definition bucket_count :: "('k, 'v) table \<Rightarrow> nat" where
  "bucket_count st = (case m_buckets st of None \<Rightarrow> 0 | Some bs \<Rightarrow> length bs)"

definition is_full :: "('k, 'v) table \<Rightarrow> bool" where
  "is_full st = (unat (m_max_bucket_capacity st) \<le> size_tbl st)"

definition deallocate_buckets :: "('k, 'v) table \<Rightarrow> ('k, 'v) table" where
  "deallocate_buckets st = st\<lparr>m_buckets := None, m_max_bucket_capacity := 0\<rparr>"

definition clear_buckets :: "('k, 'v) table \<Rightarrow> ('k, 'v) table" where
  "clear_buckets st =
     st\<lparr>m_buckets := map_option (\<lambda>bs. replicate (length bs) empty_bucket) (m_buckets st)\<rparr>"

text \<open>
  The allocation is taken to succeed; its fresh array is zeroed by \<open>clear_buckets\<close>. The
  capacity is narrowed from \<open>uint64_t\<close> to the 32-bit member.
\<close>

definition allocate_and_clear_buckets :: "('k, 'v) table \<Rightarrow> ('k, 'v) table option" where
  "allocate_and_clear_buckets st = do {
     num_buckets \<leftarrow> calc_num_buckets (m_shifts st);
     c \<leftarrow> float_to_uint64 (real (unat num_buckets) * m_max_load_factor st);
     Some (clear_buckets
       (st\<lparr>m_buckets := Some (replicate (unat num_buckets) empty_bucket),
           m_max_bucket_capacity := ucast c\<rparr>))
   }"

text \<open>
  The loop of \<open>fill_buckets_from_values\<close>: both counters are \<open>uint32_t\<close>, the end index
  is the size of the value array narrowed to 32 bits.
\<close>

function fill_buckets_loop ::
  "'k hasher \<Rightarrow> ('k, 'v) table \<Rightarrow> 32 word \<Rightarrow> 32 word \<Rightarrow> ('k, 'v) table option" where
  "fill_buckets_loop H st vidx end_idx =
     (if vidx < end_idx then
        (if unat vidx < length (m_values st) then
           (case next_while_less H st (get_key (m_values st ! unat vidx)) of
              None \<Rightarrow> None
            | Some (d, bucket) \<Rightarrow>
                (case place_and_shift_up st
                        \<lparr>dist_and_fingerprint = d, value_idx = vidx\<rparr> bucket of
                   None \<Rightarrow> None
                 | Some st' \<Rightarrow> fill_buckets_loop H st' (vidx + 1) end_idx))
         else None)
      else Some st)"
  by pat_completeness auto
termination
proof (relation "measure (\<lambda>(H, st, vidx, end_idx). unat end_idx - unat vidx)")
  show "wf (measure (\<lambda>(H, st, vidx, end_idx). unat end_idx - unat vidx))"
    by simp
next
  fix H :: "'k hasher" and st :: "('k, 'v) table" and vidx end_idx :: "32 word"
    and x2 x y st'
  assume lt: "vidx < end_idx"
  then have "unat vidx < unat end_idx"
    by (simp add: word_less_nat_alt)
  moreover have "unat vidx + 1 < 2 ^ 32"
    using \<open>unat vidx < unat end_idx\<close> unsigned_less [of end_idx, where 'a = nat] by simp
  then have "unat (vidx + 1) = unat vidx + 1"
    by (simp add: unat_word_ariths)
  ultimately show "((H, st', vidx + 1, end_idx), (H, st, vidx, end_idx))
      \<in> measure (\<lambda>(H, st, vidx, end_idx). unat end_idx - unat vidx)"
    by simp
qed

definition fill_buckets_from_values ::
  "'k hasher \<Rightarrow> ('k, 'v) table \<Rightarrow> ('k, 'v) table option" where
  "fill_buckets_from_values H st =
     fill_buckets_loop H st 0 (word_of_nat (length (m_values st)))"

definition increase_size :: "'k hasher \<Rightarrow> ('k, 'v) table \<Rightarrow> ('k, 'v) table option" where
  "increase_size H st = do {
     st1 \<leftarrow> allocate_and_clear_buckets
              (deallocate_buckets (st\<lparr>m_shifts := m_shifts st - 1\<rparr>));
     fill_buckets_from_values H st1
   }"

text \<open>
  \<open>init_from_values\<close> (used by the copy constructor and copy assignment): the shift
  amount is computed from the current size.
\<close>

definition init_from_values :: "'k hasher \<Rightarrow> ('k, 'v) table \<Rightarrow> ('k, 'v) table option" where
  "init_from_values H st =
     (if \<not> empty_tbl st then do {
        shifts \<leftarrow> calc_shifts_for_size st (word_of_nat (size_tbl st));
        st1 \<leftarrow> allocate_and_clear_buckets (st\<lparr>m_shifts := shifts\<rparr>);
        fill_buckets_from_values H st1
      } else Some st)"

text \<open>
  The test \<open>dist_and_fingerprint == bucket->dist_and_fingerprint && m_equal(key,
  get_key(m_values[bucket->value_idx]))\<close> shared by \<open>do_find\<close>, \<open>emplace\<close>,
  \<open>do_try_emplace\<close> and \<open>do_erase_key\<close>; the value array is read only when the first
  conjunct holds.
\<close>

definition bucket_matches ::
  "('k \<times> 'v) list \<Rightarrow> 'k \<Rightarrow> Bucket list \<Rightarrow> 32 word \<Rightarrow> nat \<Rightarrow> bool option" where
  "bucket_matches vals key bs d bucket =
     (if bucket < length bs then
        (if d = dist_and_fingerprint (bs ! bucket) then
           (if unat (value_idx (bs ! bucket)) < length vals
            then Some (key = get_key (vals ! unat (value_idx (bs ! bucket))))
            else None)
         else Some False)
      else None)"

text \<open>
  The backward shift of \<open>do_erase\<close>: the loop returns the array and the bucket that is
  cleared after it.
\<close>

partial_function (option) do_erase_shift_loop ::
  "Bucket list \<Rightarrow> nat \<Rightarrow> nat \<Rightarrow> (Bucket list \<times> nat) option" where
  "do_erase_shift_loop bs bucket next_bucket =
     (if bucket < length bs \<and> next_bucket < length bs then
        (if BUCKET_DIST_INC * 2 \<le> dist_and_fingerprint (bs ! next_bucket)
         then do_erase_shift_loop
                (bs[bucket := \<lparr>dist_and_fingerprint =
                                 dist_and_fingerprint (bs ! next_bucket) - BUCKET_DIST_INC,
                               value_idx = value_idx (bs ! next_bucket)\<rparr>])
                next_bucket (bucket_next bs next_bucket)
         else Some (bs, bucket))
      else None)"

declare do_erase_shift_loop.simps [code]

text \<open>
  The loop \<open>while (idx != bucket->value_idx) bucket = next(bucket)\<close>, which \<open>do_erase\<close>
  runs for the moved entry and \<open>erase(iterator)\<close> for the entry to remove.
\<close>

partial_function (option) find_value_idx_loop ::
  "Bucket list \<Rightarrow> 32 word \<Rightarrow> nat \<Rightarrow> nat option" where
  "find_value_idx_loop bs idx bucket =
     (if bucket < length bs then
        (if idx \<noteq> value_idx (bs ! bucket)
         then find_value_idx_loop bs idx (bucket_next bs bucket)
         else Some bucket)
      else None)"

declare find_value_idx_loop.simps [code]

text \<open>
  \<open>do_erase\<close>. The comparison with \<open>m_values.size() - 1\<close> is in \<open>size_t\<close>; \<open>back\<close> and
  \<open>pop_back\<close> need a non-empty array.
\<close>

definition do_erase ::
  "'k hasher \<Rightarrow> ('k, 'v) table \<Rightarrow> nat \<Rightarrow> ('k, 'v) table option" where
  "do_erase H st bucket = do {
     bs \<leftarrow> m_buckets st;
     if bucket < length bs then do {
       let value_idx_to_remove = value_idx (bs ! bucket);
       (bs1, bucket1) \<leftarrow> do_erase_shift_loop bs bucket (bucket_next bs bucket);
       let bs2 = bs1[bucket1 := empty_bucket];
       let vals = m_values st;
       if (ucast value_idx_to_remove :: 64 word) \<noteq> word_of_nat (length vals) - 1 then
         (if unat value_idx_to_remove < length vals then do {
            let vals' = vals[unat value_idx_to_remove := last vals];
            let mh = mixed_hash H (get_key (vals' ! unat value_idx_to_remove));
            bucket2 \<leftarrow> bucket_from_hash st mh;
            let values_idx_back = (word_of_nat (length vals - 1) :: 32 word);
            bucket3 \<leftarrow> find_value_idx_loop bs2 values_idx_back bucket2;
            let bs3 = bs2[bucket3 := (bs2 ! bucket3)\<lparr>value_idx := value_idx_to_remove\<rparr>];
            Some (st\<lparr>m_values := butlast vals', m_buckets := Some bs3\<rparr>)
          } else None)
       else (if vals = [] then None
             else Some (st\<lparr>m_values := butlast vals, m_buckets := Some bs2\<rparr>))
     } else None
   }"

partial_function (option) do_erase_key_loop ::
  "('k \<times> 'v) list \<Rightarrow> 'k \<Rightarrow> Bucket list \<Rightarrow> 32 word \<Rightarrow> nat \<Rightarrow> (32 word \<times> nat) option" where
  "do_erase_key_loop vals key bs d bucket =
     (if bucket < length bs then
        (if d = dist_and_fingerprint (bs ! bucket) then
           (if unat (value_idx (bs ! bucket)) < length vals then
              (if key \<noteq> get_key (vals ! unat (value_idx (bs ! bucket)))
               then do_erase_key_loop vals key bs (d + BUCKET_DIST_INC) (bucket_next bs bucket)
               else Some (d, bucket))
            else None)
         else Some (d, bucket))
      else None)"

declare do_erase_key_loop.simps [code]

definition do_erase_key ::
  "'k hasher \<Rightarrow> ('k, 'v) table \<Rightarrow> 'k \<Rightarrow> (('k, 'v) table \<times> nat) option" where
  "do_erase_key H st key = do {
     (d0, bucket0) \<leftarrow> next_while_less H st key;
     bs \<leftarrow> m_buckets st;
     (d, bucket) \<leftarrow> do_erase_key_loop (m_values st) key bs d0 bucket0;
     if d \<noteq> dist_and_fingerprint (bs ! bucket) then Some (st, 0)
     else do { st' \<leftarrow> do_erase H st bucket; Some (st', 1) }
   }"

text \<open>
  The probing loop that \<open>emplace\<close> and \<open>do_try_emplace\<close> both run:
  \<open>while (d <= bucket->dist_and_fingerprint)\<close> with the early return on a match.
\<close>

datatype probe_result = Found nat | Not_Found "32 word" nat

partial_function (option) probe_loop ::
  "('k \<times> 'v) list \<Rightarrow> 'k \<Rightarrow> Bucket list \<Rightarrow> 32 word \<Rightarrow> nat \<Rightarrow> probe_result option" where
  "probe_loop vals key bs d bucket =
     (if bucket < length bs then
        (if d \<le> dist_and_fingerprint (bs ! bucket) then
           (case bucket_matches vals key bs d bucket of
              None \<Rightarrow> None
            | Some m \<Rightarrow>
                if m then Some (Found bucket)
                else probe_loop vals key bs (d + BUCKET_DIST_INC) (bucket_next bs bucket))
         else Some (Not_Found d bucket))
      else None)"

declare probe_loop.simps [code]

text \<open>
  The results of the insertion functions are the new table, the returned iterator as an
  index into the value array, and the flag. The traced forms also give the calls that the
  function made on the value array \<open>m_values\<close>, in the order in which it made them:
  \<open>emplace_back\<close> constructs an entry at the back, \<open>pop_back\<close> destroys the back entry.
\<close>

datatype ('k, 'v) vector_op = Emplace_back "'k \<times> 'v" | Pop_back

definition untraced :: "'a \<times> 'b \<times> 'c \<times> 'd \<Rightarrow> 'a \<times> 'b \<times> 'c" where
  "untraced r = (case r of (st, it, inserted, ops) \<Rightarrow> (st, it, inserted))"

definition do_try_emplace_traced ::
  "'k hasher \<Rightarrow> ('k, 'v) table \<Rightarrow> 'k \<Rightarrow> 'v \<Rightarrow>
   (('k, 'v) table \<times> nat \<times> bool \<times> ('k, 'v) vector_op list) option" where
  "do_try_emplace_traced H st0 key mapped = do {
     st \<leftarrow> (if is_full st0 then increase_size H st0 else Some st0);
     let hash = mixed_hash H key;
     let d0 = dist_and_fingerprint_from_hash hash;
     bs \<leftarrow> m_buckets st;
     bucket0 \<leftarrow> bucket_from_hash st hash;
     r \<leftarrow> probe_loop (m_values st) key bs d0 bucket0;
     (case r of
        Found bucket \<Rightarrow> Some (st, unat (value_idx (bs ! bucket)), False, [])
      | Not_Found d bucket \<Rightarrow> do {
          let st1 = st\<lparr>m_values := m_values st @ [(key, mapped)]\<rparr>;
          let ops1 = [Emplace_back (key, mapped)];
          let vidx = (word_of_nat (length (m_values st1)) :: 32 word) - 1;
          st2 \<leftarrow> place_and_shift_up st1
                   \<lparr>dist_and_fingerprint = d, value_idx = vidx\<rparr> bucket;
          Some (st2, unat vidx, True, ops1)
        })
   }"

definition do_try_emplace ::
  "'k hasher \<Rightarrow> ('k, 'v) table \<Rightarrow> 'k \<Rightarrow> 'v \<Rightarrow> (('k, 'v) table \<times> nat \<times> bool) option" where
  "do_try_emplace H st0 key mapped = map_option untraced (do_try_emplace_traced H st0 key mapped)"


text \<open>
  \<open>do_find\<close>: two probes unrolled, then the do-while loop. The iterator \<open>end()\<close> is the
  size of the value array.
\<close>

partial_function (option) do_find_loop ::
  "('k \<times> 'v) list \<Rightarrow> 'k \<Rightarrow> Bucket list \<Rightarrow> 32 word \<Rightarrow> nat \<Rightarrow> nat option" where
  "do_find_loop vals key bs d bucket =
     (case bucket_matches vals key bs d bucket of
        None \<Rightarrow> None
      | Some m \<Rightarrow>
          if m then Some (unat (value_idx (bs ! bucket)))
          else (let d' = d + BUCKET_DIST_INC; bucket' = bucket_next bs bucket
                in if bucket' < length bs then
                     (if d' \<le> dist_and_fingerprint (bs ! bucket')
                      then do_find_loop vals key bs d' bucket'
                      else Some (length vals))
                   else None))"

declare do_find_loop.simps [code]

definition do_find :: "'k hasher \<Rightarrow> ('k, 'v) table \<Rightarrow> 'k \<Rightarrow> nat option" where
  "do_find H st key =
     (if empty_tbl st then Some (end_it st)
      else do {
        let mh = mixed_hash H key;
        let d0 = dist_and_fingerprint_from_hash mh;
        bs \<leftarrow> m_buckets st;
        bucket0 \<leftarrow> bucket_from_hash st mh;
        m0 \<leftarrow> bucket_matches (m_values st) key bs d0 bucket0;
        if m0 then Some (unat (value_idx (bs ! bucket0)))
        else do {
          let d1 = d0 + BUCKET_DIST_INC;
          let bucket1 = bucket_next bs bucket0;
          m1 \<leftarrow> bucket_matches (m_values st) key bs d1 bucket1;
          if m1 then Some (unat (value_idx (bs ! bucket1)))
          else do_find_loop (m_values st) key bs (d1 + BUCKET_DIST_INC)
                 (bucket_next bs bucket1)
        }
      })"

section \<open>The table: public operations\<close>

text \<open>
  The constructor \<open>table(size_t /*bucket_count*/, hash, equal, alloc)\<close>: its first
  parameter is unnamed and unused; the members keep their default initialisers.
\<close>

definition table_ctor :: "nat \<Rightarrow> ('k, 'v) table" where
  "table_ctor bucket_count_hint =
     \<lparr>m_values = [], m_buckets = None, m_max_bucket_capacity = 0,
      m_max_load_factor = default_max_load_factor, m_shifts = INITIAL_SHIFTS\<rparr>"


text \<open>
  \<open>emplace\<close> constructs the entry at the back of the value array before it probes, and
  pops it again when the probe finds the key.
\<close>

definition emplace_traced ::
  "'k hasher \<Rightarrow> ('k, 'v) table \<Rightarrow> 'k \<times> 'v \<Rightarrow>
   (('k, 'v) table \<times> nat \<times> bool \<times> ('k, 'v) vector_op list) option" where
  "emplace_traced H st0 args = do {
     st \<leftarrow> (if is_full st0 then increase_size H st0 else Some st0);
     let st1 = st\<lparr>m_values := m_values st @ [args]\<rparr>;
     let ops1 = [Emplace_back args];
     let val = last (m_values st1);
     let hash = mixed_hash H (get_key val);
     let d0 = dist_and_fingerprint_from_hash hash;
     bs \<leftarrow> m_buckets st1;
     bucket0 \<leftarrow> bucket_from_hash st1 hash;
     r \<leftarrow> probe_loop (m_values st1) (get_key val) bs d0 bucket0;
     (case r of
        Found bucket \<Rightarrow>
          Some (st1\<lparr>m_values := butlast (m_values st1)\<rparr>, unat (value_idx (bs ! bucket)), False,
                ops1 @ [Pop_back])
      | Not_Found d bucket \<Rightarrow> do {
          let vidx = (word_of_nat (length (m_values st1)) :: 32 word) - 1;
          st2 \<leftarrow> place_and_shift_up st1
                   \<lparr>dist_and_fingerprint = d, value_idx = vidx\<rparr> bucket;
          Some (st2, unat vidx, True, ops1)
        })
   }"

definition emplace ::
  "'k hasher \<Rightarrow> ('k, 'v) table \<Rightarrow> 'k \<times> 'v \<Rightarrow> (('k, 'v) table \<times> nat \<times> bool) option" where
  "emplace H st0 args = map_option untraced (emplace_traced H st0 args)"

definition insert_value ::
  "'k hasher \<Rightarrow> ('k, 'v) table \<Rightarrow> 'k \<times> 'v \<Rightarrow> (('k, 'v) table \<times> nat \<times> bool) option" where
  "insert_value H st v = emplace H st v"

text \<open>\<open>insert(first, last)\<close> over an input range, here a list.\<close>

fun insert_range ::
  "'k hasher \<Rightarrow> ('k, 'v) table \<Rightarrow> ('k \<times> 'v) list \<Rightarrow> ('k, 'v) table option" where
  "insert_range H st [] = Some st"
| "insert_range H st (x # xs) =
     (case insert_value H st x of
        None \<Rightarrow> None
      | Some (st', it, inserted) \<Rightarrow> insert_range H st' xs)"

text \<open>
  \<open>erase(iterator)\<close>: the iterator is dereferenced, so it must point into the array.
\<close>

definition erase_it ::
  "'k hasher \<Rightarrow> ('k, 'v) table \<Rightarrow> nat \<Rightarrow> (('k, 'v) table \<times> nat) option" where
  "erase_it H st it =
     (if it < length (m_values st) then do {
        let hash = mixed_hash H (fst (m_values st ! it));
        bs \<leftarrow> m_buckets st;
        bucket0 \<leftarrow> bucket_from_hash st hash;
        let value_idx_to_remove = (word_of_nat it :: 32 word);
        bucket \<leftarrow> find_value_idx_loop bs value_idx_to_remove bucket0;
        st' \<leftarrow> do_erase H st bucket;
        Some (st', it)
      } else None)"

text \<open>
  \<open>erase(first, last)\<close>. The iterators are indices, the distances are signed.
  \<open>erase_range_loops\<close> is the body of the function up to its closing brace. The function
  is declared to return an iterator and has no return statement: control flows off its end,
  which is undefined, so the call itself has no defined result.
\<close>

partial_function (option) erase_range_fwd_loop ::
  "'k hasher \<Rightarrow> ('k, 'v) table \<Rightarrow> int \<Rightarrow> int \<Rightarrow> ('k, 'v) table option" where
  "erase_range_fwd_loop H st first_it mid =
     (if first_it \<noteq> mid then
        (if 0 \<le> first_it then
           (case erase_it H st (nat first_it) of
              None \<Rightarrow> None
            | Some (st', it) \<Rightarrow> erase_range_fwd_loop H st' (first_it + 1) mid)
         else None)
      else Some st)"

declare erase_range_fwd_loop.simps [code]

partial_function (option) erase_range_bwd_loop ::
  "'k hasher \<Rightarrow> ('k, 'v) table \<Rightarrow> int \<Rightarrow> int \<Rightarrow> ('k, 'v) table option" where
  "erase_range_bwd_loop H st last_it mid =
     (if last_it \<noteq> mid then
        (if 0 \<le> last_it - 1 then
           (case erase_it H st (nat (last_it - 1)) of
              None \<Rightarrow> None
            | Some (st', it) \<Rightarrow> erase_range_bwd_loop H st' (last_it - 1) mid)
         else None)
      else Some st)"

declare erase_range_bwd_loop.simps [code]

definition erase_range_loops ::
  "'k hasher \<Rightarrow> ('k, 'v) table \<Rightarrow> nat \<Rightarrow> nat \<Rightarrow> ('k, 'v) table option" where
  "erase_range_loops H st first_it last_it =
     (let first_to_last = int last_it - int first_it;
          last_to_end = int (end_it st) - int last_it;
          mid = int first_it + min first_to_last last_to_end
      in do {
        st1 \<leftarrow> erase_range_fwd_loop H st (int first_it) mid;
        erase_range_bwd_loop H st1 (int last_it) mid
      })"

definition erase_range ::
  "'k hasher \<Rightarrow> ('k, 'v) table \<Rightarrow> nat \<Rightarrow> nat \<Rightarrow> (('k, 'v) table \<times> nat) option" where
  "erase_range H st first_it last_it = do {
     st' \<leftarrow> erase_range_loops H st first_it last_it;
     None
   }"

definition erase_key ::
  "'k hasher \<Rightarrow> ('k, 'v) table \<Rightarrow> 'k \<Rightarrow> (('k, 'v) table \<times> nat) option" where
  "erase_key H st key = do_erase_key H st key"

definition find_key :: "'k hasher \<Rightarrow> ('k, 'v) table \<Rightarrow> 'k \<Rightarrow> nat option" where
  "find_key H st key = do_find H st key"

definition max_load_factor :: "('k, 'v) table \<Rightarrow> real" where
  "max_load_factor st = m_max_load_factor st"


definition rehash :: "'k hasher \<Rightarrow> ('k, 'v) table \<Rightarrow> 64 word \<Rightarrow> ('k, 'v) table option" where
  "rehash H st count = do {
     shifts \<leftarrow> calc_shifts_for_size st count;
     if shifts \<noteq> m_shifts st then do {
       st1 \<leftarrow> allocate_and_clear_buckets (deallocate_buckets (st\<lparr>m_shifts := shifts\<rparr>));
       fill_buckets_from_values H st1
     } else Some st
   }"




section \<open>Invariants and auxiliary notions\<close>

definition prevb :: "nat \<Rightarrow> nat \<Rightarrow> nat" where
  "prevb n i = (i + n - 1) mod n"

definition nextb :: "nat \<Rightarrow> nat \<Rightarrow> nat" where
  "nextb n i = (i + 1) mod n"

definition dist_of :: "nat \<Rightarrow> nat \<Rightarrow> nat \<Rightarrow> nat" where
  "dist_of n h0 i = (i + n - h0) mod n"

definition pos :: "nat \<Rightarrow> nat \<Rightarrow> nat \<Rightarrow> nat" where
  "pos n h0 j = (h0 + j) mod n"

definition wf_slots ::
  "nat \<Rightarrow> (nat \<Rightarrow> nat) \<Rightarrow> (nat \<Rightarrow> nat) \<Rightarrow> (nat \<Rightarrow> nat) \<Rightarrow> (nat \<Rightarrow> nat) \<Rightarrow> nat set \<Rightarrow> bool" where
  "wf_slots n hm fp df vi S \<longleftrightarrow>
     (\<forall>i<n. df i \<noteq> 0 \<longrightarrow>
        vi i \<in> S \<and> df i = 256 * (dist_of n (hm (vi i)) i + 1) + fp (vi i))"

definition inj_slots :: "nat \<Rightarrow> (nat \<Rightarrow> nat) \<Rightarrow> (nat \<Rightarrow> nat) \<Rightarrow> bool" where
  "inj_slots n df vi \<longleftrightarrow>
     (\<forall>i<n. \<forall>j<n. df i \<noteq> 0 \<longrightarrow> df j \<noteq> 0 \<longrightarrow> vi i = vi j \<longrightarrow> i = j)"

definition surj_slots :: "nat \<Rightarrow> (nat \<Rightarrow> nat) \<Rightarrow> (nat \<Rightarrow> nat) \<Rightarrow> nat set \<Rightarrow> bool" where
  "surj_slots n df vi S \<longleftrightarrow> (\<forall>v\<in>S. \<exists>i<n. df i \<noteq> 0 \<and> vi i = v)"

definition ordered_at :: "nat \<Rightarrow> (nat \<Rightarrow> nat) \<Rightarrow> nat \<Rightarrow> bool" where
  "ordered_at n df i \<longleftrightarrow> (512 \<le> df i \<longrightarrow> df i \<le> df (prevb n i) + 256)"

definition ainv ::
  "nat \<Rightarrow> (nat \<Rightarrow> nat) \<Rightarrow> (nat \<Rightarrow> nat) \<Rightarrow> (nat \<Rightarrow> nat) \<Rightarrow> (nat \<Rightarrow> nat) \<Rightarrow> nat set \<Rightarrow> bool" where
  "ainv n hm fp df vi S \<longleftrightarrow>
     wf_slots n hm fp df vi S \<and> inj_slots n df vi \<and> surj_slots n df vi S \<and>
     (\<forall>i<n. ordered_at n df i)"

definition DF :: "Bucket list \<Rightarrow> nat \<Rightarrow> nat" where
  "DF bs i = unat (dist_and_fingerprint (bs ! i))"

definition VI :: "Bucket list \<Rightarrow> nat \<Rightarrow> nat" where
  "VI bs i = unat (value_idx (bs ! i))"

definition key_at :: "('k \<times> 'v) list \<Rightarrow> Bucket list \<Rightarrow> nat \<Rightarrow> 'k" where
  "key_at vals bs b = fst (vals ! VI bs b)"

definition fp_of :: "64 word \<Rightarrow> nat" where
  "fp_of h = unat (h AND 255)"

definition home :: "nat \<Rightarrow> 64 word \<Rightarrow> nat" where
  "home s h = unat (drop_bit s h)"

definition tinv ::
  "('k \<Rightarrow> 64 word) \<Rightarrow> nat \<Rightarrow> (nat \<Rightarrow> 'k) \<Rightarrow> Bucket list \<Rightarrow> nat set \<Rightarrow> bool" where
  "tinv hf s kf bs S \<longleftrightarrow>
     41 \<le> s \<and> s \<le> 61 \<and> length bs = 2 ^ (64 - s) \<and> finite S \<and> card S < length bs \<and>
     inj_on kf S \<and>
     ainv (length bs) (\<lambda>v. home s (hf (kf v))) (\<lambda>v. fp_of (hf (kf v))) (DF bs) (VI bs) S"

definition keyf :: "('k \<times> 'v) list \<Rightarrow> nat \<Rightarrow> 'k" where
  "keyf vals v = fst (vals ! v)"

definition valid :: "'k hasher \<Rightarrow> ('k, 'v) table \<Rightarrow> bool" where
  "valid H st \<longleftrightarrow>
     0 \<le> m_max_load_factor st \<and> m_max_load_factor st < 1 \<and>
     (case m_buckets st of
        None \<Rightarrow>
          m_values st = [] \<and> m_max_bucket_capacity st = 0 \<and>
          42 \<le> unat (m_shifts st) \<and> unat (m_shifts st) \<le> 62
      | Some bs \<Rightarrow>
          unat (m_max_bucket_capacity st) < length bs \<and>
          tinv (mixed_hash H) (unat (m_shifts st)) (keyf (m_values st)) bs
            {..<length (m_values st)})"

declare fill_buckets_loop.simps [simp del]

definition hole_inv ::
  "nat \<Rightarrow> (nat \<Rightarrow> nat) \<Rightarrow> (nat \<Rightarrow> nat) \<Rightarrow> (nat \<Rightarrow> nat) \<Rightarrow> (nat \<Rightarrow> nat) \<Rightarrow> nat \<Rightarrow> nat set \<Rightarrow> bool" where
  "hole_inv n hm fp df vi b S \<longleftrightarrow>
     wf_slots n hm fp (df(b := 0)) vi S \<and> inj_slots n (df(b := 0)) vi \<and>
     surj_slots n (df(b := 0)) vi S \<and>
     (\<forall>i<n. i \<noteq> nextb n b \<longrightarrow> ordered_at n (df(b := 0)) i) \<and>
     (768 \<le> df (nextb n b) \<longrightarrow> df (nextb n b) \<le> df (prevb n b) + 512)"

text \<open>
  What \<open>do_erase\<close> does to the value array: the last element is moved into the vacated index
  and the array shrinks by one.
\<close>

definition remove_at :: "'a list \<Rightarrow> nat \<Rightarrow> 'a list" where
  "remove_at xs i = butlast (xs[i := last xs])"

text \<open>
  The value arrays that the two loops of \<open>erase(first, last)\<close> leave behind: the first loop
  removes at \<open>i, i + 1, \<dots>\<close>, the second at \<open>l - 1, l - 2, \<dots>\<close>.
\<close>

fun fwd_list :: "'a list \<Rightarrow> nat \<Rightarrow> nat \<Rightarrow> 'a list" where
  "fwd_list xs i 0 = xs"
| "fwd_list xs i (Suc c) = fwd_list (remove_at xs i) (Suc i) c"

fun bwd_list :: "'a list \<Rightarrow> nat \<Rightarrow> nat \<Rightarrow> 'a list" where
  "bwd_list xs l 0 = xs"
| "bwd_list xs l (Suc c) = bwd_list (remove_at xs (l - 1)) (l - 1) c"

text \<open>The value array after \<open>erase(first, last)\<close>, as the two loops compute it.\<close>

definition erase_range_list :: "'a list \<Rightarrow> nat \<Rightarrow> nat \<Rightarrow> 'a list" where
  "erase_range_list xs f l =
     (let c = min (l - f) (length xs - l)
      in bwd_list (fwd_list xs f c) l (l - (f + c)))"

text \<open>
  The shape of the metadata array: a table that never allocated has the initial shift
  amount; an allocated array has \<open>2 ^ (64 - m_shifts)\<close> buckets.
\<close>

definition shape :: "('k, 'v) table \<Rightarrow> bool" where
  "shape st =
     (case m_buckets st of
        None \<Rightarrow> m_shifts st = INITIAL_SHIFTS
      | Some bs \<Rightarrow> 1 \<le> unat (m_shifts st) \<and> length bs = 2 ^ (64 - unat (m_shifts st)))"

definition H0 :: "(64 word) hasher" where
  "H0 = \<lparr>hash_fn = (\<lambda>k. k), is_avalanching = False\<rparr>"

definition t0 :: "(64 word, nat) table" where
  "t0 = table_ctor 0"


section \<open>Proofs\<close>

lemma prevb_less: "0 < n \<Longrightarrow> prevb n i < n"
  by (simp add: prevb_def)

lemma nextb_less: "0 < n \<Longrightarrow> nextb n i < n"
  by (simp add: nextb_def)

lemma mod_wrap: "(a::nat) < n \<Longrightarrow> (a + n) mod n = a"
  by simp

lemma prevb_if: "i < n \<Longrightarrow> prevb n i = (if i = 0 then n - 1 else i - 1)"
proof (cases "i = 0")
  case True
  assume "i < n"
  with True show ?thesis by (simp add: prevb_def)
next
  case False
  assume "i < n"
  from False have e: "i + n - 1 = (i - 1) + n" by arith
  have "i - 1 < n" using \<open>i < n\<close> by arith
  then have "(i + n - 1) mod n = i - 1" unfolding e by (rule mod_wrap)
  with False show ?thesis by (simp add: prevb_def)
qed

lemma nextb_if: "i < n \<Longrightarrow> nextb n i = (if i + 1 = n then 0 else i + 1)"
  unfolding nextb_def by auto

lemma prevb_nextb: "i < n \<Longrightarrow> prevb n (nextb n i) = i"
  using nextb_less [of n i] by (auto simp: prevb_if nextb_if)

lemma nextb_prevb: "i < n \<Longrightarrow> nextb n (prevb n i) = i"
  using prevb_less [of n i] by (auto simp: prevb_if nextb_if)

lemma back_if: "(i::nat) < n \<Longrightarrow> t \<le> n \<Longrightarrow> (i + n - t) mod n = (if t \<le> i then i - t else i + n - t)"
proof (cases "t \<le> i")
  case True
  assume "i < n" "t \<le> n"
  from True have e: "i + n - t = (i - t) + n" by arith
  have "i - t < n" using \<open>i < n\<close> by arith
  then have "(i + n - t) mod n = i - t" unfolding e by (rule mod_wrap)
  then show ?thesis using True by simp
next
  case False
  assume "i < n" "t \<le> n"
  with False show ?thesis by simp
qed

lemma back_step: "i < n \<Longrightarrow> t < n \<Longrightarrow> prevb n ((i + n - t) mod n) = (i + n - Suc t) mod n"
  by (simp add: back_if prevb_if) arith

lemma ainv_run:
  assumes inv: "ainv n hm fp df vi S" and i: "i < n"
  shows "t < n \<Longrightarrow> 256 * (t + 1) \<le> df i \<Longrightarrow> df i \<le> df ((i + n - t) mod n) + 256 * t"
proof (induction t)
  case 0
  then show ?case using i by simp
next
  case (Suc t)
  then have t: "t < n" and big: "256 * (t + 1) \<le> df i" by simp_all
  from Suc.IH [OF t big] have ih: "df i \<le> df ((i + n - t) mod n) + 256 * t" .
  let ?q = "(i + n - t) mod n"
  have q: "?q < n" using i by simp
  have "512 \<le> df ?q" using ih Suc.prems(2) by simp
  with inv q have "df ?q \<le> df (prevb n ?q) + 256"
    by (simp add: ainv_def ordered_at_def)
  moreover have "prevb n ?q = (i + n - Suc t) mod n"
    using back_step [OF i t] .
  ultimately show ?case using ih by simp
qed

lemma pos_less: "0 < n \<Longrightarrow> pos n h0 j < n"
  by (simp add: pos_def)

lemma nextb_pos: "nextb n (pos n h0 j) = pos n h0 (Suc j)"
  by (simp add: nextb_def pos_def mod_simps)

lemma pos_0: "h0 < n \<Longrightarrow> pos n h0 0 = h0"
  by (simp add: pos_def)

lemma dist_of_less: "0 < n \<Longrightarrow> dist_of n h0 i < n"
  by (simp add: dist_of_def)

lemma pos_dist_of: "h0 < n \<Longrightarrow> i < n \<Longrightarrow> pos n h0 (dist_of n h0 i) = i"
proof -
  assume h: "h0 < n" and i: "i < n"
  have "(h0 + (i + n - h0) mod n) mod n = (h0 + (i + n - h0)) mod n"
    by (simp add: mod_simps)
  also have "h0 + (i + n - h0) = i + n" using h by arith
  finally show ?thesis using i by (simp add: pos_def dist_of_def)
qed

lemma dist_of_pos: "h0 < n \<Longrightarrow> j < n \<Longrightarrow> dist_of n h0 (pos n h0 j) = j"
proof -
  assume h: "h0 < n" and j: "j < n"
  have e1: "\<And>x::nat. x + n - h0 = x + (n - h0)"
    using h by arith
  have "((h0 + j) mod n + n - h0) mod n = ((h0 + j) mod n + (n - h0)) mod n"
    by (simp only: e1)
  also have "\<dots> = ((h0 + j) + (n - h0)) mod n"
    by (simp add: mod_simps)
  also have "(h0 + j) + (n - h0) = j + n" using h by arith
  finally show ?thesis using j by (simp add: pos_def dist_of_def)
qed

lemma pos_back: "h0 < n \<Longrightarrow> j' \<le> j \<Longrightarrow> j < n \<Longrightarrow>
    (pos n h0 j + n - (j - j')) mod n = pos n h0 j'"
proof -
  assume h: "h0 < n" and le: "j' \<le> j" and j: "j < n"
  have e1: "\<And>x::nat. x + n - (j - j') = x + (n - (j - j'))"
    using j le by arith
  have "((h0 + j) mod n + n - (j - j')) mod n = ((h0 + j) mod n + (n - (j - j'))) mod n"
    by (simp only: e1)
  also have "\<dots> = ((h0 + j) + (n - (j - j'))) mod n"
    by (simp add: mod_simps)
  also have "(h0 + j) + (n - (j - j')) = (h0 + j') + n" using j le by arith
  finally show ?thesis by (simp add: pos_def)
qed

text \<open>A stored entry dominates the probe sequence of its key up to its own slot.\<close>

lemma ainv_reach:
  assumes inv: "ainv n hm fp df vi S" and i: "i < n" and ne: "df i \<noteq> 0"
    and hm: "hm (vi i) < n" and j': "j' \<le> dist_of n (hm (vi i)) i"
  shows "256 * (j' + 1) + fp (vi i) \<le> df (pos n (hm (vi i)) j')"
proof -
  let ?h = "hm (vi i)" and ?j = "dist_of n (hm (vi i)) i"
  have n: "0 < n" using i by simp
  have jn: "?j < n" using n by (rule dist_of_less)
  have dfi: "df i = 256 * (?j + 1) + fp (vi i)"
    using inv i ne by (simp add: ainv_def wf_slots_def)
  have p: "pos n ?h ?j = i" using hm i by (rule pos_dist_of)
  have t: "?j - j' < n" using jn by arith
  have "256 * ((?j - j') + 1) \<le> df i" using dfi by simp
  from ainv_run [OF inv i t this]
  have "df i \<le> df ((i + n - (?j - j')) mod n) + 256 * (?j - j')" .
  moreover have "(i + n - (?j - j')) mod n = pos n ?h j'"
    using pos_back [OF hm j' jn] p by simp
  ultimately show ?thesis using dfi j' by simp
qed

lemma dist_of_nextb:
  assumes "h < n" "p < n" "dist_of n h p + 1 < n"
  shows "dist_of n h (nextb n p) = dist_of n h p + 1"
proof -
  have e1: "\<And>x::nat. x + n - h = x + (n - h)" using assms(1) by arith
  have "dist_of n h (nextb n p) = ((p + 1) mod n + (n - h)) mod n"
    by (simp only: dist_of_def nextb_def e1)
  also have "\<dots> = ((p + (n - h)) mod n + 1) mod n"
    by (simp add: mod_simps)
  also have "\<dots> = (dist_of n h p + 1) mod n"
    by (simp only: dist_of_def e1)
  finally show ?thesis using assms(3) by simp
qed

lemma nextb_neq: "2 \<le> n \<Longrightarrow> p < n \<Longrightarrow> nextb n p \<noteq> p"
  by (simp add: nextb_if)

lemma prevb_neq: "2 \<le> n \<Longrightarrow> p < n \<Longrightarrow> prevb n p \<noteq> p"
  by (auto simp: prevb_if)

lemma prevb_eq_iff: "p < n \<Longrightarrow> i < n \<Longrightarrow> prevb n i = p \<longleftrightarrow> i = nextb n p"
  using nextb_prevb [of i n] prevb_nextb [of p n] by auto

lemma wf_ge_256:
  "wf_slots n hm fp df vi S \<Longrightarrow> i < n \<Longrightarrow> df i \<noteq> 0 \<Longrightarrow> 256 \<le> df i"
  by (auto simp: wf_slots_def)

lemma place_end:
  assumes inv: "ainv n hm fp df vi S" and p: "p < n" and emp: "df p = 0"
    and cv: "cv \<notin> S" and cD: "cD = 256 * (dist_of n (hm cv) p + 1) + fp cv"
    and ord: "512 \<le> cD \<longrightarrow> cD \<le> df (prevb n p) + 256"
    and n2: "2 \<le> n"
  shows "ainv n hm fp (df(p := cD)) (vi(p := cv)) (insert cv S)"
proof -
  have wf: "wf_slots n hm fp df vi S" and inj: "inj_slots n df vi"
    and surj: "surj_slots n df vi S" and ordd: "\<forall>i<n. ordered_at n df i"
    using inv by (simp_all add: ainv_def)
  have 1: "wf_slots n hm fp (df(p := cD)) (vi(p := cv)) (insert cv S)"
    using wf cD by (auto simp: wf_slots_def)
  have 2: "inj_slots n (df(p := cD)) (vi(p := cv))"
    using inj wf cv unfolding inj_slots_def wf_slots_def by (auto split: if_splits)
  have 3: "surj_slots n (df(p := cD)) (vi(p := cv)) (insert cv S)"
    unfolding surj_slots_def
  proof
    fix v assume "v \<in> insert cv S"
    then consider "v = cv" | "v \<in> S" by auto
    then show "\<exists>i<n. (df(p := cD)) i \<noteq> 0 \<and> (vi(p := cv)) i = v"
    proof cases
      case 1
      then show ?thesis using p cD by (intro exI [of _ p]) simp
    next
      case 2
      then obtain i where "i < n" "df i \<noteq> 0" "vi i = v"
        using surj by (auto simp: surj_slots_def)
      moreover then have "i \<noteq> p" using emp by auto
      ultimately show ?thesis by (intro exI [of _ i]) simp
    qed
  qed
  have 4: "\<forall>i<n. ordered_at n (df(p := cD)) i"
  proof (intro allI impI)
    fix i assume i: "i < n"
    show "ordered_at n (df(p := cD)) i"
    proof (cases "i = p")
      case True
      then show ?thesis using ord prevb_neq [OF n2 p] by (simp add: ordered_at_def)
    next
      case False
      have o: "ordered_at n df i" using ordd i by simp
      show ?thesis
      proof (cases "prevb n i = p")
        case True
        then show ?thesis using o False emp by (simp add: ordered_at_def)
      next
        case F2: False
        then show ?thesis using o False by (simp add: ordered_at_def)
      qed
    qed
  qed
  show ?thesis using 1 2 3 4 by (simp add: ainv_def)
qed

lemma place_step:
  assumes inv: "ainv n hm fp df vi S" and p: "p < n" and ne: "df p \<noteq> 0"
    and cv: "cv \<notin> S" and cD: "cD = 256 * (dist_of n (hm cv) p + 1) + fp cv"
    and ge: "df p \<le> cD"
    and ord: "512 \<le> cD \<longrightarrow> cD \<le> df (prevb n p) + 256"
    and n2: "2 \<le> n"
    and hm: "hm (vi p) < n"
    and e: "e < n" "df e = 0"
  shows "ainv n hm fp (df(p := cD)) (vi(p := cv)) (insert cv (S - {vi p}))"
    and "vi p \<notin> insert cv (S - {vi p})"
    and "df p + 256 = 256 * (dist_of n (hm (vi p)) (nextb n p) + 1) + fp (vi p)"
    and "(df(p := cD)) (nextb n p) \<le> df p + 256"
    and "df p + 256 \<le> (df(p := cD)) (prevb n (nextb n p)) + 256"
proof -
  have wf: "wf_slots n hm fp df vi S" and inj: "inj_slots n df vi"
    and surj: "surj_slots n df vi S" and ordd: "\<forall>i<n. ordered_at n df i"
    using inv by (simp_all add: ainv_def)
  have vp: "vi p \<in> S" and dfp: "df p = 256 * (dist_of n (hm (vi p)) p + 1) + fp (vi p)"
    using wf p ne by (auto simp: wf_slots_def)
  have other: "\<And>i. i < n \<Longrightarrow> i \<noteq> p \<Longrightarrow> df i \<noteq> 0 \<Longrightarrow> vi i \<noteq> vi p"
    using inj p ne by (auto simp: inj_slots_def)
  have 1: "wf_slots n hm fp (df(p := cD)) (vi(p := cv)) (insert cv (S - {vi p}))"
    using wf cD other by (auto simp: wf_slots_def)
  have 2: "inj_slots n (df(p := cD)) (vi(p := cv))"
    using inj wf cv unfolding inj_slots_def wf_slots_def by (auto split: if_splits)
  have 3: "surj_slots n (df(p := cD)) (vi(p := cv)) (insert cv (S - {vi p}))"
    unfolding surj_slots_def
  proof
    fix v assume "v \<in> insert cv (S - {vi p})"
    then consider "v = cv" | "v \<in> S" "v \<noteq> vi p" by auto
    then show "\<exists>i<n. (df(p := cD)) i \<noteq> 0 \<and> (vi(p := cv)) i = v"
    proof cases
      case 1
      then show ?thesis using p cD by (intro exI [of _ p]) simp
    next
      case 2
      then obtain i where "i < n" "df i \<noteq> 0" "vi i = v"
        using surj by (auto simp: surj_slots_def)
      moreover then have "i \<noteq> p" using 2 by auto
      ultimately show ?thesis by (intro exI [of _ i]) simp
    qed
  qed
  have np: "nextb n p \<noteq> p" using n2 p by (rule nextb_neq)
  have nl: "nextb n p < n" using p by (simp add: nextb_less)
  have 4: "\<forall>i<n. ordered_at n (df(p := cD)) i"
  proof (intro allI impI)
    fix i assume i: "i < n"
    show "ordered_at n (df(p := cD)) i"
    proof (cases "i = p")
      case True
      then show ?thesis using ord prevb_neq [OF n2 p] by (simp add: ordered_at_def)
    next
      case False
      have o: "ordered_at n df i" using ordd i by simp
      show ?thesis
      proof (cases "prevb n i = p")
        case True
        then show ?thesis using o False ge by (auto simp: ordered_at_def)
      next
        case F2: False
        then show ?thesis using o False by (simp add: ordered_at_def)
      qed
    qed
  qed
  show "ainv n hm fp (df(p := cD)) (vi(p := cv)) (insert cv (S - {vi p}))"
    using 1 2 3 4 by (simp add: ainv_def)
  show "vi p \<notin> insert cv (S - {vi p})" using vp cv by auto
  have n0: "0 < n" using p by simp
  have "dist_of n (hm (vi p)) p + 1 < n"
  proof (rule ccontr)
    assume "\<not> dist_of n (hm (vi p)) p + 1 < n"
    then have full: "dist_of n (hm (vi p)) e \<le> dist_of n (hm (vi p)) p"
      using dist_of_less [OF n0, of "hm (vi p)" e] by arith
    from ainv_reach [OF inv p ne hm full]
    have "256 \<le> df (pos n (hm (vi p)) (dist_of n (hm (vi p)) e))" by simp
    then show False using e pos_dist_of [OF hm e(1)] by simp
  qed
  from dist_of_nextb [OF hm p this]
  show "df p + 256 = 256 * (dist_of n (hm (vi p)) (nextb n p) + 1) + fp (vi p)"
    using dfp by simp
  have "256 \<le> df p" using wf p ne by (rule wf_ge_256)
  moreover have "ordered_at n df (nextb n p)" using ordd nl by simp
  ultimately show "(df(p := cD)) (nextb n p) \<le> df p + 256"
    using np prevb_nextb [OF p] by (auto simp: ordered_at_def)
  show "df p + 256 \<le> (df(p := cD)) (prevb n (nextb n p)) + 256"
    using prevb_nextb [OF p] ge by simp
qed

lemma DF_update: "p < length bs \<Longrightarrow> DF (bs[p := c]) = (DF bs)(p := unat (dist_and_fingerprint c))"
  by (auto simp: DF_def fun_eq_iff)

lemma VI_update: "p < length bs \<Longrightarrow> VI (bs[p := c]) = (VI bs)(p := unat (value_idx c))"
  by (auto simp: VI_def fun_eq_iff)

lemma bucket_next_nextb: "bucket_next bs b = nextb (length bs) b" if "b < length bs"
  using that by (simp add: bucket_next_def nextb_if)

lemma unat_BUCKET_DIST_INC: "unat BUCKET_DIST_INC = 256"
  by (simp add: BUCKET_DIST_INC_def)

lemma unat_add_INC: "unat d + 256 < 2 ^ 32 \<Longrightarrow> unat (d + BUCKET_DIST_INC) = unat d + 256"
  by (simp add: BUCKET_DIST_INC_def unat_word_ariths)

lemma DF_eq_0: "DF bs i = 0 \<longleftrightarrow> dist_and_fingerprint (bs ! i) = 0"
  by (simp add: DF_def unat_eq_0)

lemma pos_Suc_nextb: "pos n (nextb n p) m = pos n p (Suc m)"
  by (simp add: pos_def nextb_def mod_simps)

lemma pos_0': "p < n \<Longrightarrow> pos n p 0 = p"
  by (simp add: pos_def)

lemma wf_bound:
  assumes "wf_slots n hm fp df vi S" "i < n" "df i \<noteq> 0" "\<forall>v. fp v < 256"
  shows "df i < 256 * n + 256"
proof -
  have "df i = 256 * (dist_of n (hm (vi i)) i + 1) + fp (vi i)"
    using assms by (simp add: wf_slots_def)
  moreover have "dist_of n (hm (vi i)) i < n" using assms(2) by (simp add: dist_of_def)
  moreover have "fp (vi i) < 256" using assms(4) by simp
  ultimately show ?thesis by simp
qed

lemma place_loop:
  assumes "DF bs (pos n p m) = 0"
    and "length bs = n" and "2 \<le> n" and "n \<le> 2 ^ 23"
    and "ainv n hm fp (DF bs) (VI bs) S" and "p < n"
    and "unat (value_idx c) \<notin> S"
    and "unat (dist_and_fingerprint c) =
          256 * (dist_of n (hm (unat (value_idx c))) p + 1) + fp (unat (value_idx c))"
    and "DF bs p \<le> unat (dist_and_fingerprint c)"
    and "512 \<le> unat (dist_and_fingerprint c) \<longrightarrow>
          unat (dist_and_fingerprint c) \<le> DF bs (prevb n p) + 256"
    and "\<forall>v. hm v < n" and "\<forall>v. fp v < 256"
  shows "\<exists>bs'. place_and_shift_up_loop bs c p = Some bs' \<and> length bs' = n \<and>
           ainv n hm fp (DF bs') (VI bs') (insert (unat (value_idx c)) S)"
  using assms
proof (induction m arbitrary: bs c p S)
  case 0
  then have emp: "DF bs p = 0" by (simp add: pos_0')
  have "ainv n hm fp ((DF bs)(p := unat (dist_and_fingerprint c)))
          ((VI bs)(p := unat (value_idx c))) (insert (unat (value_idx c)) S)"
    using "0.prems" emp by (intro place_end) simp_all
  moreover have "place_and_shift_up_loop bs c p = Some (bs[p := c])"
    using emp "0.prems"(2,6)
    by (subst place_and_shift_up_loop.simps) (simp add: DF_eq_0)
  ultimately show ?case using "0.prems"(2,6) by (simp add: DF_update VI_update)
next
  case (Suc m)
  show ?case
  proof (cases "DF bs p = 0")
    case True
    have "ainv n hm fp ((DF bs)(p := unat (dist_and_fingerprint c)))
            ((VI bs)(p := unat (value_idx c))) (insert (unat (value_idx c)) S)"
      using Suc.prems True by (intro place_end) simp_all
    moreover have "place_and_shift_up_loop bs c p = Some (bs[p := c])"
      using True Suc.prems(2,6)
      by (subst place_and_shift_up_loop.simps) (simp add: DF_eq_0)
    ultimately show ?thesis using Suc.prems(2,6) by (simp add: DF_update VI_update)
  next
    case False
    let ?cD = "unat (dist_and_fingerprint c)" and ?cv = "unat (value_idx c)"
    let ?e = "pos n p (Suc m)"
    let ?c1 = "(bs ! p)\<lparr>dist_and_fingerprint := dist_and_fingerprint (bs ! p) + BUCKET_DIST_INC\<rparr>"
    let ?bs1 = "bs[p := c]"
    let ?p1 = "nextb n p"
    have n0: "0 < n" using Suc.prems(3) by simp
    have e: "?e < n" "DF bs ?e = 0" using Suc.prems(1) n0 by (simp_all add: pos_less)
    have ep: "?e \<noteq> p" using e False by auto
    have hmp: "hm (VI bs p) < n" using Suc.prems(11) by simp
    note st = place_step [OF Suc.prems(5) Suc.prems(6) False Suc.prems(7) Suc.prems(8)
        Suc.prems(9) Suc.prems(10) Suc.prems(3) hmp e]
    have wf: "wf_slots n hm fp (DF bs) (VI bs) S" using Suc.prems(5) by (simp add: ainv_def)
    have "DF bs p < 256 * n + 256"
      using wf Suc.prems(6) False Suc.prems(12) by (rule wf_bound)
    then have "DF bs p + 256 < 2 ^ 32" using Suc.prems(4) by simp
    then have c1D: "unat (dist_and_fingerprint ?c1) = DF bs p + 256"
      by (simp add: unat_add_INC DF_def)
    have c1v: "unat (value_idx ?c1) = VI bs p" by (simp add: VI_def)
    have len1: "length ?bs1 = n" using Suc.prems(2) by simp
    have df1: "DF ?bs1 = (DF bs)(p := ?cD)" and vi1: "VI ?bs1 = (VI bs)(p := ?cv)"
      using Suc.prems(2,6) by (simp_all add: DF_update VI_update)
    have "\<exists>bs'. place_and_shift_up_loop ?bs1 ?c1 ?p1 = Some bs' \<and> length bs' = n \<and>
           ainv n hm fp (DF bs') (VI bs') (insert (unat (value_idx ?c1)) (insert ?cv (S - {VI bs p})))"
    proof (rule Suc.IH)
      show "DF ?bs1 (pos n ?p1 m) = 0" using e ep by (simp add: df1 pos_Suc_nextb)
      show "length ?bs1 = n" by (rule len1)
      show "2 \<le> n" "n \<le> 2 ^ 23" "\<forall>v. hm v < n" "\<forall>v. fp v < 256" by fact+
      show "ainv n hm fp (DF ?bs1) (VI ?bs1) (insert ?cv (S - {VI bs p}))"
        using st(1) by (simp add: df1 vi1)
      show "?p1 < n" using n0 by (rule nextb_less)
      show "unat (value_idx ?c1) \<notin> insert ?cv (S - {VI bs p})"
        unfolding c1v by (rule st(2))
      show "unat (dist_and_fingerprint ?c1) =
          256 * (dist_of n (hm (unat (value_idx ?c1))) ?p1 + 1) + fp (unat (value_idx ?c1))"
        using st(3) by (simp only: c1D c1v)
      show "DF ?bs1 ?p1 \<le> unat (dist_and_fingerprint ?c1)"
        using st(4) by (simp only: c1D df1)
      show "512 \<le> unat (dist_and_fingerprint ?c1) \<longrightarrow>
          unat (dist_and_fingerprint ?c1) \<le> DF ?bs1 (prevb n ?p1) + 256"
        using st(5) by (simp only: c1D df1) simp
    qed
    then obtain bs' where r: "place_and_shift_up_loop ?bs1 ?c1 ?p1 = Some bs'"
      "length bs' = n"
      "ainv n hm fp (DF bs') (VI bs') (insert (VI bs p) (insert ?cv (S - {VI bs p})))"
      unfolding c1v by blast
    have "VI bs p \<in> S" using wf Suc.prems(6) False by (simp add: wf_slots_def)
    then have "insert (VI bs p) (insert ?cv (S - {VI bs p})) = insert ?cv S" by auto
    moreover have "place_and_shift_up_loop bs c p = Some bs'"
      using False Suc.prems(2,6) r(1)
      by (subst place_and_shift_up_loop.simps) (simp add: DF_eq_0 bucket_next_nextb)
    ultimately show ?thesis using r by auto
  qed
qed

lemma lt_DF: "d < dist_and_fingerprint (bs ! b) \<longleftrightarrow> unat d < DF bs b"
  by (simp add: DF_def word_less_nat_alt)

lemma le_DF: "d \<le> dist_and_fingerprint (bs ! b) \<longleftrightarrow> unat d \<le> DF bs b"
  by (simp add: DF_def word_le_nat_alt)

lemma eq_DF: "d = dist_and_fingerprint (bs ! b) \<longleftrightarrow> unat d = DF bs b"
  by (simp add: DF_def word_unat_eq_iff)

lemma nwl_loop:
  assumes "DF bs (pos n h0 je) = 0" and "j \<le> je" and "je \<le> n"
    and "length bs = n" and "0 < n" and "n \<le> 2 ^ 23"
    and "unat d = 256 * (j + 1) + f" and "f < 256"
    and "\<forall>j'<j. 256 * (j' + 1) + f < DF bs (pos n h0 j')"
  shows "\<exists>J d'. J \<le> je \<and>
           next_while_less_loop bs d (pos n h0 j) = Some (d', pos n h0 J) \<and>
           unat d' = 256 * (J + 1) + f \<and>
           (\<forall>j'<J. 256 * (j' + 1) + f < DF bs (pos n h0 j')) \<and>
           DF bs (pos n h0 J) \<le> 256 * (J + 1) + f"
  using assms
proof (induction "je - j" arbitrary: j d)
  case 0
  then have j: "j = je" by simp
  have pl: "pos n h0 j < length bs" using 0 by (simp add: pos_less)
  have "next_while_less_loop bs d (pos n h0 j) = Some (d, pos n h0 j)"
    using 0 pl by (subst next_while_less_loop.simps) (simp add: lt_DF j)
  then show ?case using 0 j by (intro exI [of _ j] exI [of _ d]) simp
next
  case (Suc m)
  have pl: "pos n h0 j < length bs" using Suc.prems by (simp add: pos_less)
  show ?case
  proof (cases "unat d < DF bs (pos n h0 j)")
    case False
    have "next_while_less_loop bs d (pos n h0 j) = Some (d, pos n h0 j)"
      using False pl by (subst next_while_less_loop.simps) (simp add: lt_DF)
    then show ?thesis using Suc.prems False
      by (intro exI [of _ j] exI [of _ d]) simp
  next
    case True
    have jl: "j < je" using Suc.hyps(2) by simp
    have "unat d + 256 < 2 ^ 32" using Suc.prems(3,6,7,8) jl by simp
    then have d1: "unat (d + BUCKET_DIST_INC) = 256 * (Suc j + 1) + f"
      using Suc.prems(7) by (simp add: unat_add_INC)
    have "\<exists>J d'. J \<le> je \<and>
           next_while_less_loop bs (d + BUCKET_DIST_INC) (pos n h0 (Suc j)) = Some (d', pos n h0 J) \<and>
           unat d' = 256 * (J + 1) + f \<and>
           (\<forall>j'<J. 256 * (j' + 1) + f < DF bs (pos n h0 j')) \<and>
           DF bs (pos n h0 J) \<le> 256 * (J + 1) + f"
    proof (rule Suc.hyps(1))
      show "m = je - Suc j" using Suc.hyps(2) by simp
      show "Suc j \<le> je" using jl by simp
      show "\<forall>j'<Suc j. 256 * (j' + 1) + f < DF bs (pos n h0 j')"
        using Suc.prems(9) True Suc.prems(7) by (auto simp: less_Suc_eq)
    qed (use Suc.prems d1 in simp_all)
    moreover have "next_while_less_loop bs d (pos n h0 j) =
        next_while_less_loop bs (d + BUCKET_DIST_INC) (pos n h0 (Suc j))"
      using True pl Suc.prems(4)
      by (subst next_while_less_loop.simps) (simp add: lt_DF bucket_next_nextb nextb_pos)
    ultimately show ?thesis by simp
  qed
qed

lemma bucket_matches_Some:
  assumes "b < length bs" and "DF bs b \<noteq> 0 \<longrightarrow> VI bs b < length vals" and "unat d \<noteq> 0"
  shows "bucket_matches vals k bs d b = Some (unat d = DF bs b \<and> k = key_at vals bs b)"
  using assms by (auto simp: bucket_matches_def eq_DF VI_def key_at_def get_key_def)

lemma probe_loop_correct:
  assumes "DF bs (pos n h0 je) = 0" and "j \<le> je" and "je \<le> n"
    and "length bs = n" and "0 < n" and "n \<le> 2 ^ 23"
    and "unat d = 256 * (j + 1) + f" and "f < 256"
    and "\<forall>i<n. DF bs i \<noteq> 0 \<longrightarrow> VI bs i < length vals"
    and "\<forall>j'<j. 256 * (j' + 1) + f \<le> DF bs (pos n h0 j') \<and>
           \<not> (DF bs (pos n h0 j') = 256 * (j' + 1) + f \<and> k = key_at vals bs (pos n h0 j'))"
  shows "\<exists>r. probe_loop vals k bs d (pos n h0 j) = Some r \<and>
           (case r of
              Found b \<Rightarrow> b < n \<and> DF bs b \<noteq> 0 \<and> key_at vals bs b = k
            | Not_Found d' b \<Rightarrow>
                (\<exists>J\<le>je. b = pos n h0 J \<and> unat d' = 256 * (J + 1) + f \<and>
                   (\<forall>j'<J. 256 * (j' + 1) + f \<le> DF bs (pos n h0 j') \<and>
                      \<not> (DF bs (pos n h0 j') = 256 * (j' + 1) + f \<and>
                          k = key_at vals bs (pos n h0 j'))) \<and>
                   DF bs b < 256 * (J + 1) + f))"
  using assms
proof (induction "je - j" arbitrary: j d)
  case 0
  then have j: "j = je" by simp
  have pl: "pos n h0 j < length bs" using 0 by (simp add: pos_less)
  have "probe_loop vals k bs d (pos n h0 j) = Some (Not_Found d (pos n h0 j))"
    using 0 pl by (subst probe_loop.simps) (simp add: le_DF j)
  then show ?case using 0 j by (auto intro!: exI [of _ je])
next
  case (Suc m)
  have pl: "pos n h0 j < length bs" using Suc.prems by (simp add: pos_less)
  have d0: "unat d \<noteq> 0" using Suc.prems(7) by simp
  have bm: "bucket_matches vals k bs d (pos n h0 j) =
      Some (unat d = DF bs (pos n h0 j) \<and> k = key_at vals bs (pos n h0 j))"
    using pl Suc.prems(9) Suc.prems(4) d0 by (intro bucket_matches_Some) auto
  show ?case
  proof (cases "unat d \<le> DF bs (pos n h0 j)")
    case False
    have "probe_loop vals k bs d (pos n h0 j) = Some (Not_Found d (pos n h0 j))"
      using False pl by (subst probe_loop.simps) (simp add: le_DF)
    then show ?thesis using Suc.prems False by (auto intro!: exI [of _ j])
  next
    case True
    show ?thesis
    proof (cases "unat d = DF bs (pos n h0 j) \<and> k = key_at vals bs (pos n h0 j)")
      case m: True
      have "probe_loop vals k bs d (pos n h0 j) = Some (Found (pos n h0 j))"
        using True pl bm m by (subst probe_loop.simps) (simp add: le_DF)
      then show ?thesis using m d0 pl Suc.prems(4) by auto
    next
      case nm: False
      have jl: "j < je" using Suc.hyps(2) by simp
      have "unat d + 256 < 2 ^ 32" using Suc.prems(3,6,7,8) jl by simp
      then have d1: "unat (d + BUCKET_DIST_INC) = 256 * (Suc j + 1) + f"
        using Suc.prems(7) by (simp add: unat_add_INC)
      have "\<exists>r. probe_loop vals k bs (d + BUCKET_DIST_INC) (pos n h0 (Suc j)) = Some r \<and>
           (case r of
              Found b \<Rightarrow> b < n \<and> DF bs b \<noteq> 0 \<and> key_at vals bs b = k
            | Not_Found d' b \<Rightarrow>
                (\<exists>J\<le>je. b = pos n h0 J \<and> unat d' = 256 * (J + 1) + f \<and>
                   (\<forall>j'<J. 256 * (j' + 1) + f \<le> DF bs (pos n h0 j') \<and>
                      \<not> (DF bs (pos n h0 j') = 256 * (j' + 1) + f \<and>
                          k = key_at vals bs (pos n h0 j'))) \<and>
                   DF bs b < 256 * (J + 1) + f))"
      proof (rule Suc.hyps(1))
        show "m = je - Suc j" using Suc.hyps(2) by simp
        show "Suc j \<le> je" using jl by simp
        show "\<forall>j'<Suc j. 256 * (j' + 1) + f \<le> DF bs (pos n h0 j') \<and>
           \<not> (DF bs (pos n h0 j') = 256 * (j' + 1) + f \<and> k = key_at vals bs (pos n h0 j'))"
          using Suc.prems(10) True nm Suc.prems(7) by (auto simp: less_Suc_eq)
      qed (use Suc.prems d1 in simp_all)
      moreover have "probe_loop vals k bs d (pos n h0 j) =
          probe_loop vals k bs (d + BUCKET_DIST_INC) (pos n h0 (Suc j))"
        using True pl bm nm Suc.prems(4)
        by (subst probe_loop.simps) (simp add: le_DF bucket_next_nextb nextb_pos)
      ultimately show ?thesis by simp
    qed
  qed
qed

lemma tinvD:
  assumes "tinv hf s kf bs S"
  shows "41 \<le> s" and "s \<le> 61" and "length bs = 2 ^ (64 - s)" and "finite S"
    and "card S < length bs" and "inj_on kf S"
    and "ainv (length bs) (\<lambda>v. home s (hf (kf v))) (\<lambda>v. fp_of (hf (kf v))) (DF bs) (VI bs) S"
  using assms unfolding tinv_def by blast+

lemma fp_less: "fp_of h < 256"
proof -
  have "h AND 255 \<le> 255" by (rule word_and_le1)
  then have "unat (h AND 255) \<le> unat (255 :: 64 word)" by (simp add: word_le_nat_alt)
  then show ?thesis by (simp add: fp_of_def)
qed

lemma or_eq_add_fp: "(256 :: 64 word) OR (h AND 255) = 256 + (h AND 255)"
proof -
  have "(256 :: 64 word) AND (h AND 255) = (256 AND 255) AND h"
    by (simp add: ac_simps)
  also have "(256 :: 64 word) AND 255 = 0" by simp
  finally have "(256 :: 64 word) AND (h AND 255) = 0" by simp
  then show ?thesis by (rule disjunctive_add_eq_or [symmetric])
qed

lemma unat_dist_and_fingerprint_from_hash:
  "unat (dist_and_fingerprint_from_hash h) = 256 * (0 + 1) + fp_of h"
proof -
  have b: "unat ((256 :: 64 word) + (h AND 255)) = 256 + unat (h AND 255)"
    using fp_less [of h] by (simp add: unat_word_ariths fp_of_def)
  have "dist_and_fingerprint_from_hash h = ucast ((256 :: 64 word) + (h AND 255))"
    by (simp add: dist_and_fingerprint_from_hash_def BUCKET_DIST_INC_def
        BUCKET_FINGERPRINT_MASK_def or_eq_add_fp)
  then have "unat (dist_and_fingerprint_from_hash h) = (256 + unat (h AND 255)) mod 2 ^ 32"
    using b by (simp add: unsigned_ucast_eq take_bit_eq_mod)
  then show ?thesis using fp_less [of h] by (simp add: fp_of_def)
qed

lemma home_less: "s \<le> 64 \<Longrightarrow> home s h < 2 ^ (64 - s)"
proof -
  assume s: "s \<le> 64"
  have "unat h < 2 ^ 64" using unsigned_less [of h, where 'a = nat] by simp
  also have "(2 :: nat) ^ 64 = 2 ^ s * 2 ^ (64 - s)"
    using s by (simp flip: power_add)
  finally have "unat h div 2 ^ s < 2 ^ (64 - s)"
    by (simp add: less_mult_imp_div_less mult.commute)
  then show ?thesis unfolding home_def unat_drop_bit_eq by (simp only: drop_bit_eq_div)
qed

lemma geom_bounds:
  assumes "41 \<le> s" "s \<le> 61" "n = (2::nat) ^ (64 - s)"
  shows "8 \<le> n" and "n \<le> 2 ^ 23"
proof -
  have "(2::nat) ^ 3 \<le> 2 ^ (64 - s)" using assms(2) by (intro power_increasing) simp_all
  then show "8 \<le> n" using assms(3) by simp
  have "(2::nat) ^ (64 - s) \<le> 2 ^ 23" using assms(1) by (intro power_increasing) simp_all
  then show "n \<le> 2 ^ 23" using assms(3) by simp
qed

lemma exists_empty:
  assumes inv: "ainv n hm fp df vi S" and fin: "finite S" and card: "card S < n"
  shows "\<exists>e<n. df e = 0"
proof (rule ccontr)
  assume "\<not> (\<exists>e<n. df e = 0)"
  then have ne: "\<And>i. i < n \<Longrightarrow> df i \<noteq> 0" by auto
  have wf: "wf_slots n hm fp df vi S" and inj: "inj_slots n df vi"
    using inv by (simp_all add: ainv_def)
  have "inj_on vi {..<n}"
    using inj ne by (auto simp: inj_on_def inj_slots_def)
  moreover have "vi ` {..<n} \<subseteq> S"
    using wf ne by (auto simp: wf_slots_def)
  ultimately have "card {..<n} \<le> card S"
    using fin by (rule card_inj_on_le)
  then show False using card by simp
qed

lemma tinv_empty_from:
  assumes "tinv hf s kf bs S" and "h0 < length bs"
  shows "\<exists>je<length bs. DF bs (pos (length bs) h0 je) = 0"
proof -
  let ?n = "length bs"
  from assms(1) have "ainv ?n (\<lambda>v. home s (hf (kf v))) (\<lambda>v. fp_of (hf (kf v))) (DF bs) (VI bs) S"
    and "finite S" and "card S < ?n" by (rule tinvD)+
  then obtain e where e: "e < ?n" "DF bs e = 0" using exists_empty by blast
  have "pos ?n h0 (dist_of ?n h0 e) = e" using assms(2) e(1) by (rule pos_dist_of)
  moreover have "0 < ?n" using e(1) by auto
  then have "dist_of ?n h0 e < ?n" by (rule dist_of_less)
  ultimately show ?thesis using e(2) by auto
qed

text \<open>A probe that stops below the wanted word proves that the key is not stored.\<close>

lemma miss_absent:
  assumes inv: "ainv n hm fp (DF bs) (VI bs) S"
    and hmS: "\<forall>v. hm v < n"
    and J: "J < n"
    and pre: "\<forall>j'<J. \<not> (DF bs (pos n h0 j') = 256 * (j' + 1) + f \<and> P (VI bs (pos n h0 j')))"
    and stop: "DF bs (pos n h0 J) < 256 * (J + 1) + f"
    and v: "v \<in> S" "hm v = h0" "fp v = f" "P v"
  shows False
proof -
  have wf: "wf_slots n hm fp (DF bs) (VI bs) S" and surj: "surj_slots n (DF bs) (VI bs) S"
    using inv by (simp_all add: ainv_def)
  obtain i where i: "i < n" "DF bs i \<noteq> 0" "VI bs i = v"
    using surj v(1) by (auto simp: surj_slots_def)
  let ?j = "dist_of n h0 i"
  have n0: "0 < n" using i(1) by simp
  have h0: "h0 < n" using hmS v(2) by auto
  have dfi: "DF bs i = 256 * (?j + 1) + f"
    using wf i v by (auto simp: wf_slots_def)
  have pi: "pos n h0 ?j = i" using h0 i(1) by (rule pos_dist_of)
  show False
  proof (cases "?j < J")
    case True
    with pre pi dfi i(3) v(4) show False by auto
  next
    case False
    then have "J \<le> dist_of n (hm (VI bs i)) i" using i(3) v(2) by simp
    moreover have "hm (VI bs i) < n" using hmS by simp
    ultimately have "256 * (J + 1) + fp (VI bs i) \<le> DF bs (pos n (hm (VI bs i)) J)"
      using ainv_reach [OF inv i(1) i(2)] by blast
    then show False using stop i(3) v by simp
  qed
qed

lemma probe_spec:
  assumes inv: "tinv hf s kf bs S"
    and vals: "\<forall>v\<in>S. v < length vals \<and> kf v = fst (vals ! v)"
  shows "\<exists>r. probe_loop vals k bs (dist_and_fingerprint_from_hash (hf k)) (home s (hf k)) = Some r \<and>
           (case r of
              Found b \<Rightarrow> b < length bs \<and> DF bs b \<noteq> 0 \<and> VI bs b \<in> S \<and> kf (VI bs b) = k
            | Not_Found d' b \<Rightarrow>
                k \<notin> kf ` S \<and> b < length bs \<and>
                unat d' = 256 * (dist_of (length bs) (home s (hf k)) b + 1) + fp_of (hf k) \<and>
                DF bs b \<le> unat d' \<and>
                (512 \<le> unat d' \<longrightarrow> unat d' \<le> DF bs (prevb (length bs) b) + 256))"
proof -
  let ?n = "length bs" and ?h0 = "home s (hf k)" and ?f = "fp_of (hf k)"
  let ?hm = "\<lambda>v. home s (hf (kf v))" and ?fp = "\<lambda>v. fp_of (hf (kf v))"
  from inv have s: "41 \<le> s" "s \<le> 61" and n: "?n = 2 ^ (64 - s)"
    and ainv: "ainv ?n ?hm ?fp (DF bs) (VI bs) S"
    by (rule tinvD)+
  have n8: "8 \<le> ?n" and nb: "?n \<le> 2 ^ 23" using geom_bounds [OF s n] by simp_all
  have n0: "0 < ?n" using n8 by auto
  have hl: "\<And>h. home s h < ?n" using home_less [of s] s n by simp
  have wf: "wf_slots ?n ?hm ?fp (DF bs) (VI bs) S" using ainv by (simp add: ainv_def)
  obtain je where je: "je < ?n" "DF bs (pos ?n ?h0 je) = 0"
    using tinv_empty_from [OF inv hl] by blast
  have rng: "\<forall>i<?n. DF bs i \<noteq> 0 \<longrightarrow> VI bs i < length vals"
    using wf vals by (auto simp: wf_slots_def)
  have "\<exists>r. probe_loop vals k bs (dist_and_fingerprint_from_hash (hf k)) (pos ?n ?h0 0) = Some r \<and>
           (case r of
              Found b \<Rightarrow> b < ?n \<and> DF bs b \<noteq> 0 \<and> key_at vals bs b = k
            | Not_Found d' b \<Rightarrow>
                (\<exists>J\<le>je. b = pos ?n ?h0 J \<and> unat d' = 256 * (J + 1) + ?f \<and>
                   (\<forall>j'<J. 256 * (j' + 1) + ?f \<le> DF bs (pos ?n ?h0 j') \<and>
                      \<not> (DF bs (pos ?n ?h0 j') = 256 * (j' + 1) + ?f \<and>
                          k = key_at vals bs (pos ?n ?h0 j'))) \<and>
                   DF bs b < 256 * (J + 1) + ?f))"
  proof (rule probe_loop_correct [where je = je])
    show "0 < ?n" by (rule n0)
    show "unat (dist_and_fingerprint_from_hash (hf k)) = 256 * (0 + 1) + ?f"
      by (rule unat_dist_and_fingerprint_from_hash)
    show "je \<le> ?n" using je(1) by simp
  qed (use je nb rng in \<open>simp_all add: fp_less\<close>)
  then obtain r where r: "probe_loop vals k bs (dist_and_fingerprint_from_hash (hf k)) ?h0 = Some r"
    and rr: "(case r of
              Found b \<Rightarrow> b < ?n \<and> DF bs b \<noteq> 0 \<and> key_at vals bs b = k
            | Not_Found d' b \<Rightarrow>
                (\<exists>J\<le>je. b = pos ?n ?h0 J \<and> unat d' = 256 * (J + 1) + ?f \<and>
                   (\<forall>j'<J. 256 * (j' + 1) + ?f \<le> DF bs (pos ?n ?h0 j') \<and>
                      \<not> (DF bs (pos ?n ?h0 j') = 256 * (j' + 1) + ?f \<and>
                          k = key_at vals bs (pos ?n ?h0 j'))) \<and>
                   DF bs b < 256 * (J + 1) + ?f))"
    using hl by (auto simp: pos_0)
  show ?thesis
  proof (cases r)
    case (Found b)
    with rr have b: "b < ?n" "DF bs b \<noteq> 0" "key_at vals bs b = k" by simp_all
    have "VI bs b \<in> S" using wf b by (simp add: wf_slots_def)
    moreover then have "kf (VI bs b) = k" using vals b(3) by (simp add: key_at_def)
    ultimately show ?thesis using r Found b by simp
  next
    case (Not_Found d' b)
    with rr obtain J where J: "J \<le> je" "b = pos ?n ?h0 J" "unat d' = 256 * (J + 1) + ?f"
      "\<forall>j'<J. 256 * (j' + 1) + ?f \<le> DF bs (pos ?n ?h0 j') \<and>
                      \<not> (DF bs (pos ?n ?h0 j') = 256 * (j' + 1) + ?f \<and>
                          k = key_at vals bs (pos ?n ?h0 j'))"
      "DF bs b < 256 * (J + 1) + ?f" by auto
    have Jn: "J < ?n" using J(1) je(1) by simp
    have bl: "b < ?n" unfolding J(2) by (rule pos_less [OF n0])
    have absent: "k \<notin> kf ` S"
    proof
      assume "k \<in> kf ` S"
      then obtain v where v: "v \<in> S" "kf v = k" by auto
      have pre: "\<forall>j'<J. \<not> (DF bs (pos ?n ?h0 j') = 256 * (j' + 1) + ?f \<and>
                  (\<lambda>u. u \<in> S \<and> kf u = k) (VI bs (pos ?n ?h0 j')))"
      proof (intro allI impI notI)
        fix j' assume j': "j' < J"
          and a: "DF bs (pos ?n ?h0 j') = 256 * (j' + 1) + ?f \<and>
                  (VI bs (pos ?n ?h0 j') \<in> S \<and> kf (VI bs (pos ?n ?h0 j')) = k)"
        then have "k = key_at vals bs (pos ?n ?h0 j')"
          using vals by (auto simp: key_at_def)
        with J(4) j' a show False by blast
      qed
      show False
        by (rule miss_absent [OF ainv _ Jn pre, of v])
          (use hl J(2,5) v in simp_all)
    qed
    have d1: "dist_of ?n ?h0 b = J" using J(2) dist_of_pos [OF hl Jn] by simp
    have ord: "512 \<le> unat d' \<longrightarrow> unat d' \<le> DF bs (prevb ?n b) + 256"
    proof
      assume "512 \<le> unat d'"
      then have "0 < J" using J(3) fp_less [of "hf k"] by (cases J) simp_all
      then obtain J' where J': "J = Suc J'" by (cases J) simp_all
      have "prevb ?n (nextb ?n (pos ?n ?h0 J')) = pos ?n ?h0 J'"
        by (rule prevb_nextb) (rule pos_less [OF n0])
      then have "prevb ?n b = pos ?n ?h0 J'" using J(2) J' by (simp add: nextb_pos)
      moreover have "256 * (J' + 1) + ?f \<le> DF bs (pos ?n ?h0 J')" using J(4) J' by simp
      ultimately show "unat d' \<le> DF bs (prevb ?n b) + 256" using J(3) J' by simp
    qed
    show ?thesis using r Not_Found absent bl d1 J(3,5) ord by simp
  qed
qed

lemma nwl_spec:
  assumes inv: "tinv hf s kf bs S"
  shows "\<exists>d' J. next_while_less_loop bs (dist_and_fingerprint_from_hash h) (home s h)
              = Some (d', pos (length bs) (home s h) J) \<and>
           J < length bs \<and> unat d' = 256 * (J + 1) + fp_of h \<and>
           (\<forall>j'<J. 256 * (j' + 1) + fp_of h < DF bs (pos (length bs) (home s h) j')) \<and>
           DF bs (pos (length bs) (home s h) J) \<le> 256 * (J + 1) + fp_of h"
proof -
  let ?n = "length bs" and ?h0 = "home s h" and ?f = "fp_of h"
  from inv have s: "41 \<le> s" "s \<le> 61" and n: "?n = 2 ^ (64 - s)" by (rule tinvD)+
  have n8: "8 \<le> ?n" and nb: "?n \<le> 2 ^ 23" using geom_bounds [OF s n] by simp_all
  have n0: "0 < ?n" using n8 by auto
  have hl: "\<And>h. home s h < ?n" using home_less [of s] s n by simp
  obtain je where je: "je < ?n" "DF bs (pos ?n ?h0 je) = 0"
    using tinv_empty_from [OF inv hl] by blast
  have "\<exists>J d'. J \<le> je \<and>
           next_while_less_loop bs (dist_and_fingerprint_from_hash h) (pos ?n ?h0 0)
             = Some (d', pos ?n ?h0 J) \<and>
           unat d' = 256 * (J + 1) + ?f \<and>
           (\<forall>j'<J. 256 * (j' + 1) + ?f < DF bs (pos ?n ?h0 j')) \<and>
           DF bs (pos ?n ?h0 J) \<le> 256 * (J + 1) + ?f"
  proof (rule nwl_loop [where je = je])
    show "0 < ?n" by (rule n0)
    show "unat (dist_and_fingerprint_from_hash h) = 256 * (0 + 1) + ?f"
      by (rule unat_dist_and_fingerprint_from_hash)
    show "je \<le> ?n" using je(1) by simp
  qed (use je nb in \<open>simp_all add: fp_less\<close>)
  then show ?thesis using je(1) hl by (auto simp: pos_0)
qed

lemma place_pre_from_stop:
  assumes n0: "0 < n" and h0: "h0 < n" and J: "J < n"
    and d: "d = 256 * (J + 1) + f" and f: "f < 256"
    and before: "\<forall>j'<J. 256 * (j' + 1) + f \<le> df (pos n h0 j')"
    and stop: "df (pos n h0 J) \<le> d"
  shows "d = 256 * (dist_of n h0 (pos n h0 J) + 1) + f"
    and "512 \<le> d \<longrightarrow> d \<le> df (prevb n (pos n h0 J)) + 256"
proof -
  show "d = 256 * (dist_of n h0 (pos n h0 J) + 1) + f"
    using d dist_of_pos [OF h0 J] by simp
  show "512 \<le> d \<longrightarrow> d \<le> df (prevb n (pos n h0 J)) + 256"
  proof
    assume "512 \<le> d"
    then have "0 < J" using d f by (cases J) simp_all
    then obtain J' where J': "J = Suc J'" by (cases J) simp_all
    have "prevb n (nextb n (pos n h0 J')) = pos n h0 J'"
      by (rule prevb_nextb) (rule pos_less [OF n0])
    then have "prevb n (pos n h0 J) = pos n h0 J'" using J' by (simp add: nextb_pos)
    moreover have "256 * (J' + 1) + f \<le> df (pos n h0 J')" using before J' by simp
    ultimately show "d \<le> df (prevb n (pos n h0 J)) + 256" using d J' by simp
  qed
qed

lemma place_tinv:
  assumes inv: "tinv hf s kf bs S"
    and v: "v \<notin> S" and card: "card S + 1 < length bs" and inj: "inj_on kf (insert v S)"
    and c: "unat (value_idx c) = v"
    and b: "b < length bs"
    and d: "unat (dist_and_fingerprint c) =
              256 * (dist_of (length bs) (home s (hf (kf v))) b + 1) + fp_of (hf (kf v))"
    and ge: "DF bs b \<le> unat (dist_and_fingerprint c)"
    and ord: "512 \<le> unat (dist_and_fingerprint c) \<longrightarrow>
                unat (dist_and_fingerprint c) \<le> DF bs (prevb (length bs) b) + 256"
  shows "\<exists>bs'. place_and_shift_up_loop bs c b = Some bs' \<and> length bs' = length bs \<and>
           tinv hf s kf bs' (insert v S)"
proof -
  let ?n = "length bs"
  let ?hm = "\<lambda>v. home s (hf (kf v))" and ?fp = "\<lambda>v. fp_of (hf (kf v))"
  from inv have s: "41 \<le> s" "s \<le> 61" and n: "?n = 2 ^ (64 - s)"
    and fin: "finite S"
    and ainv: "ainv ?n ?hm ?fp (DF bs) (VI bs) S" by (rule tinvD)+
  have n8: "8 \<le> ?n" and nb: "?n \<le> 2 ^ 23" using geom_bounds [OF s n] by simp_all
  have hl: "\<And>h. home s h < ?n" using home_less [of s] s n by simp
  obtain m where m: "DF bs (pos ?n b m) = 0"
    using tinv_empty_from [OF inv b] by blast
  have "\<exists>bs'. place_and_shift_up_loop bs c b = Some bs' \<and> length bs' = ?n \<and>
           ainv ?n ?hm ?fp (DF bs') (VI bs') (insert (unat (value_idx c)) S)"
  proof (rule place_loop [OF m])
    show "2 \<le> ?n" using n8 by simp
    show "\<forall>v. ?hm v < ?n" using hl by simp
    show "\<forall>v. ?fp v < 256" by (simp add: fp_less)
  qed (use nb ainv b v c d ge ord in simp_all)
  then obtain bs' where r: "place_and_shift_up_loop bs c b = Some bs'" "length bs' = ?n"
    "ainv ?n ?hm ?fp (DF bs') (VI bs') (insert v S)" using c by auto
  have "card (insert v S) < ?n" using fin v card by simp
  then have "tinv hf s kf bs' (insert v S)"
    using r(2,3) s n fin inj by (simp add: tinv_def)
  then show ?thesis using r by simp
qed

lemma unat_2p64: "k < 64 \<Longrightarrow> unat ((2 :: 64 word) ^ k) = 2 ^ k"
proof -
  assume k: "k < 64"
  have "(2 :: 64 word) ^ k = word_of_nat (2 ^ k)" by simp
  then have "unat ((2 :: 64 word) ^ k) = (2 ^ k) mod 2 ^ 64"
    by (simp only: unat_of_nat) simp
  moreover have "(2 :: nat) ^ k < 2 ^ 64" using k by (intro power_strict_increasing) simp_all
  ultimately show ?thesis by simp
qed

lemma calc_num_buckets_Some:
  assumes "1 \<le> unat shifts" "unat shifts \<le> 64"
  shows "\<exists>nb. calc_num_buckets shifts = Some nb \<and> unat nb = 2 ^ (64 - unat shifts)"
proof -
  have u: "unat (ucast shifts :: 32 word) = unat shifts"
    by (simp add: unsigned_ucast_eq take_bit_nat_eq_self unsigned_less [where 'a = nat, THEN less_trans])
  have le: "(ucast shifts :: 32 word) \<le> 64"
    using assms u by (simp add: word_le_nat_alt)
  have a: "unat ((64 :: 32 word) - ucast shifts) = 64 - unat shifts"
    using unat_sub [OF le] u by simp
  then have lt: "(64 :: 32 word) - ucast shifts < 64"
    using assms by (simp add: word_less_nat_alt)
  have "unat (push_bit (64 - unat shifts) (1 :: 64 word)) = 2 ^ (64 - unat shifts)"
    using assms by (simp add: push_bit_eq_mult unat_2p64)
  then show ?thesis using lt a by (simp add: calc_num_buckets_def Let_def)
qed

lemma float_to_uint64_small:
  assumes "0 \<le> x" "x < real n" "n \<le> 2 ^ 23"
  shows "\<exists>c. float_to_uint64 x = Some c \<and> unat (ucast c :: 32 word) < n"
proof -
  let ?k = "\<lfloor>x\<rfloor>"
  have k0: "0 \<le> ?k" using assms(1) by simp
  have kn: "?k < int n" using assms(2) by (simp add: floor_less_iff)
  have "real n \<le> 2 ^ 23" using assms(3) by (metis of_nat_le_iff of_nat_numeral of_nat_power)
  then have "x < 2 ^ 64" using assms(2) by simp
  then have "float_to_uint64 x = Some (word_of_int ?k)"
    using assms(1) by (simp add: float_to_uint64_def)
  moreover have "uint (word_of_int ?k :: 64 word) \<le> ?k"
    using k0 by (simp add: uint_word_of_int zmod_le_nonneg_dividend)
  then have "nat (uint (word_of_int ?k :: 64 word)) \<le> nat ?k"
    by (rule nat_mono)
  then have "unat (word_of_int ?k :: 64 word) \<le> nat ?k"
    by (simp only: unat_eq_nat_uint)
  moreover have "unat (ucast (word_of_int ?k :: 64 word) :: 32 word) \<le> unat (word_of_int ?k :: 64 word)"
    by (simp add: unsigned_ucast_eq take_bit_eq_mod)
  moreover have "nat ?k < n" using kn k0 by linarith
  ultimately show ?thesis by auto
qed

lemma allocate_spec:
  assumes s: "41 \<le> unat (m_shifts st)" "unat (m_shifts st) \<le> 61"
    and mlf: "0 \<le> m_max_load_factor st" "m_max_load_factor st < 1"
  shows "\<exists>c. allocate_and_clear_buckets st =
            Some (st\<lparr>m_buckets := Some (replicate (2 ^ (64 - unat (m_shifts st))) empty_bucket),
                     m_max_bucket_capacity := c\<rparr>) \<and>
           unat c < 2 ^ (64 - unat (m_shifts st))"
proof -
  let ?n = "(2::nat) ^ (64 - unat (m_shifts st))"
  obtain nb where nb: "calc_num_buckets (m_shifts st) = Some nb" "unat nb = ?n"
    using calc_num_buckets_Some [of "m_shifts st"] s by auto
  have nbd: "?n \<le> 2 ^ 23" using geom_bounds(2) [OF s refl] .
  have n0: "0 < real ?n" by simp
  have "real ?n * m_max_load_factor st < real ?n * 1"
    using mlf(2) n0 by (intro mult_strict_left_mono) simp_all
  then have x: "0 \<le> real ?n * m_max_load_factor st" "real ?n * m_max_load_factor st < real ?n"
    using mlf(1) by simp_all
  obtain c where c: "float_to_uint64 (real (unat nb) * m_max_load_factor st) = Some c"
    "unat (ucast c :: 32 word) < ?n"
    using float_to_uint64_small [OF x nbd] unfolding nb(2) by blast
  have "allocate_and_clear_buckets st =
      Some (st\<lparr>m_buckets := Some (replicate ?n empty_bucket),
               m_max_bucket_capacity := ucast c\<rparr>)"
  proof -
    have "real (unat nb) = real ?n" by (simp only: nb(2))
    then have ur: "(unsigned nb :: real) = 2 ^ (64 - unat (m_shifts st))" by simp
    have c': "float_to_uint64 (2 ^ (64 - unat (m_shifts st)) * m_max_load_factor st) = Some c"
      using c(1) ur by simp
    have un: "unat nb = 2 ^ (64 - unat (m_shifts st))" by (rule nb(2))
    show ?thesis
      using nb(1) c' by (simp add: allocate_and_clear_buckets_def clear_buckets_def ur un)
  qed
  then show ?thesis using c(2) by blast
qed

lemma tinv_replicate:
  assumes "41 \<le> s" "s \<le> 61"
  shows "tinv hf s kf (replicate (2 ^ (64 - s)) empty_bucket) {}"
proof -
  let ?bs = "replicate ((2::nat) ^ (64 - s)) empty_bucket"
  have "\<And>i. i < length ?bs \<Longrightarrow> DF ?bs i = 0"
    by (simp add: DF_def empty_bucket_def)
  then have "ainv (length ?bs) (\<lambda>v. home s (hf (kf v))) (\<lambda>v. fp_of (hf (kf v))) (DF ?bs) (VI ?bs) {}"
    by (simp add: ainv_def wf_slots_def inj_slots_def surj_slots_def ordered_at_def)
  then show ?thesis using assms by (simp add: tinv_def)
qed

lemma bucket_from_hash_Some:
  "unat (m_shifts st) \<le> 61 \<Longrightarrow> bucket_from_hash st h = Some (home (unat (m_shifts st)) h)"
  by (simp add: bucket_from_hash_def home_def)

lemma next_while_less_state:
  assumes inv: "tinv (mixed_hash H) (unat (m_shifts st)) kf bs S"
    and bs: "m_buckets st = Some bs"
  shows "\<exists>d' b. next_while_less H st key = Some (d', b) \<and> b < length bs \<and>
           unat d' = 256 * (dist_of (length bs) (home (unat (m_shifts st)) (mixed_hash H key)) b + 1)
                       + fp_of (mixed_hash H key) \<and>
           DF bs b \<le> unat d' \<and>
           (512 \<le> unat d' \<longrightarrow> unat d' \<le> DF bs (prevb (length bs) b) + 256)"
proof -
  let ?s = "unat (m_shifts st)" and ?h = "mixed_hash H key" and ?n = "length bs"
  from inv have s: "41 \<le> ?s" "?s \<le> 61" and n: "?n = 2 ^ (64 - ?s)" by (rule tinvD)+
  have n8: "8 \<le> ?n" using geom_bounds [OF s n] by simp
  have n0: "0 < ?n" using n8 by auto
  have hl: "home ?s ?h < ?n" using home_less [of ?s] s n by simp
  obtain d' J where r: "next_while_less_loop bs (dist_and_fingerprint_from_hash ?h) (home ?s ?h)
              = Some (d', pos ?n (home ?s ?h) J)"
    "J < ?n" "unat d' = 256 * (J + 1) + fp_of ?h"
    "\<forall>j'<J. 256 * (j' + 1) + fp_of ?h < DF bs (pos ?n (home ?s ?h) j')"
    "DF bs (pos ?n (home ?s ?h) J) \<le> 256 * (J + 1) + fp_of ?h"
    using nwl_spec [OF inv, of ?h] by blast
  have before: "\<forall>j'<J. 256 * (j' + 1) + fp_of ?h \<le> DF bs (pos ?n (home ?s ?h) j')"
    using r(4) by (auto intro: less_imp_le)
  have stop: "DF bs (pos ?n (home ?s ?h) J) \<le> unat d'" using r(3,5) by simp
  note pp = place_pre_from_stop [OF n0 hl r(2) r(3) fp_less before stop]
  have "next_while_less H st key = Some (d', pos ?n (home ?s ?h) J)"
    using r(1) bs s by (simp add: next_while_less_def Let_def bucket_from_hash_Some)
  then show ?thesis using pp stop pos_less [OF n0] by blast
qed

lemma fill_loop_correct:
  assumes "tinv (mixed_hash H) (unat (m_shifts st)) (keyf (m_values st)) bs {..<unat i}"
    and "unat e = length (m_values st)" and "unat i \<le> unat e"
    and "inj_on (keyf (m_values st)) {..<length (m_values st)}"
    and "length (m_values st) < length bs"
  shows "\<exists>bs'. fill_buckets_loop H (st\<lparr>m_buckets := Some bs\<rparr>) i e
                 = Some (st\<lparr>m_buckets := Some bs'\<rparr>) \<and>
           length bs' = length bs \<and>
           tinv (mixed_hash H) (unat (m_shifts st)) (keyf (m_values st)) bs'
             {..<length (m_values st)}"
  using assms
proof (induction "unat e - unat i" arbitrary: i bs)
  case 0
  then have eq: "unat i = unat e" by simp
  then have "\<not> i < e" by (simp add: word_less_nat_alt)
  then have "fill_buckets_loop H (st\<lparr>m_buckets := Some bs\<rparr>) i e = Some (st\<lparr>m_buckets := Some bs\<rparr>)"
    by (subst fill_buckets_loop.simps) simp
  then show ?case using "0.prems" eq by auto
next
  case (Suc m)
  let ?st = "st\<lparr>m_buckets := Some bs\<rparr>"
  let ?vals = "m_values st" and ?s = "unat (m_shifts st)"
  let ?v = "unat i"
  let ?key = "get_key (?vals ! ?v)"
  have lt: "i < e" using Suc.hyps(2) by (simp add: word_less_nat_alt)
  have vN: "?v < length ?vals" using Suc.hyps(2) Suc.prems(2) by simp
  have inv': "tinv (mixed_hash H) (unat (m_shifts ?st)) (keyf ?vals) bs {..<?v}"
    using Suc.prems(1) by simp
  obtain d b where nw: "next_while_less H ?st ?key = Some (d, b)" "b < length bs"
    "unat d = 256 * (dist_of (length bs) (home ?s (mixed_hash H ?key)) b + 1)
                       + fp_of (mixed_hash H ?key)"
    "DF bs b \<le> unat d"
    "512 \<le> unat d \<longrightarrow> unat d \<le> DF bs (prevb (length bs) b) + 256"
    using next_while_less_state [OF inv', of ?key] by auto
  let ?c = "\<lparr>dist_and_fingerprint = d, value_idx = i\<rparr>"
  have kv: "keyf ?vals ?v = ?key" by (simp add: keyf_def get_key_def)
  have "\<exists>bs'. place_and_shift_up_loop bs ?c b = Some bs' \<and> length bs' = length bs \<and>
           tinv (mixed_hash H) ?s (keyf ?vals) bs' (insert ?v {..<?v})"
  proof (rule place_tinv [OF Suc.prems(1)])
    show "card {..<?v} + 1 < length bs" using vN Suc.prems(5) by simp
    have "insert ?v {..<?v} \<subseteq> {..<length ?vals}" using vN by auto
    with Suc.prems(4) show "inj_on (keyf ?vals) (insert ?v {..<?v})"
      by (rule inj_on_subset)
  qed (use nw kv in simp_all)
  then obtain bs1 where p: "place_and_shift_up_loop bs ?c b = Some bs1"
    "length bs1 = length bs"
    "tinv (mixed_hash H) ?s (keyf ?vals) bs1 {..<Suc ?v}"
    by (auto simp: lessThan_Suc)
  have "unat i + 1 < 2 ^ 32"
    using lt unsigned_less [of e, where 'a = nat] by (simp add: word_less_nat_alt)
  then have i1: "unat (i + 1) = Suc ?v" by (simp add: unat_word_ariths)
  have "\<exists>bs'. fill_buckets_loop H (st\<lparr>m_buckets := Some bs1\<rparr>) (i + 1) e
                 = Some (st\<lparr>m_buckets := Some bs'\<rparr>) \<and>
           length bs' = length bs1 \<and>
           tinv (mixed_hash H) ?s (keyf ?vals) bs' {..<length ?vals}"
  proof (rule Suc.hyps(1))
    show "m = unat e - unat (i + 1)" using Suc.hyps(2) i1 by simp
    show "tinv (mixed_hash H) ?s (keyf ?vals) bs1 {..<unat (i + 1)}" using p(3) i1 by simp
    show "unat (i + 1) \<le> unat e" using i1 vN Suc.prems(2) by simp
    show "length ?vals < length bs1" using p(2) Suc.prems(5) by simp
  qed (use Suc.prems in simp_all)
  moreover have "fill_buckets_loop H ?st i e = fill_buckets_loop H (st\<lparr>m_buckets := Some bs1\<rparr>) (i + 1) e"
    using lt vN nw(1) p(1)
    by (subst fill_buckets_loop.simps) (simp add: place_and_shift_up_def)
  ultimately show ?case using p(2) by auto
qed

lemma validD_Some:
  assumes "valid H st" "m_buckets st = Some bs"
  shows "unat (m_max_bucket_capacity st) < length bs"
    and "tinv (mixed_hash H) (unat (m_shifts st)) (keyf (m_values st)) bs {..<length (m_values st)}"
    and "0 \<le> m_max_load_factor st" and "m_max_load_factor st < 1"
  using assms by (simp_all add: valid_def)

lemma validD_None:
  assumes "valid H st" "m_buckets st = None"
  shows "m_values st = []" and "m_max_bucket_capacity st = 0"
    and "42 \<le> unat (m_shifts st)" and "unat (m_shifts st) \<le> 62"
    and "0 \<le> m_max_load_factor st" and "m_max_load_factor st < 1"
  using assms by (simp_all add: valid_def)

lemma unat_shifts_minus_1:
  "1 \<le> unat (s :: 8 word) \<Longrightarrow> unat (s - 1) = unat s - 1"
  by (rule unat_minus_one) auto

lemma increase_size_spec:
  assumes v: "valid H st" and s42: "42 \<le> unat (m_shifts st)"
  shows "\<exists>bs1 c. increase_size H st =
             Some (st\<lparr>m_shifts := m_shifts st - 1, m_buckets := Some bs1,
                      m_max_bucket_capacity := c\<rparr>) \<and>
           unat c < length bs1 \<and>
           tinv (mixed_hash H) (unat (m_shifts st) - 1) (keyf (m_values st)) bs1
             {..<length (m_values st)} \<and>
           length (m_values st) + 1 < length bs1"
proof -
  let ?s = "unat (m_shifts st)" and ?N = "length (m_values st)"
  let ?st0 = "deallocate_buckets (st\<lparr>m_shifts := m_shifts st - 1\<rparr>)"
  let ?n' = "(2::nat) ^ (64 - (?s - 1))"
  have mlf: "0 \<le> m_max_load_factor st" "m_max_load_factor st < 1"
    using v by (simp_all add: valid_def)
  have s1: "unat (m_shifts st - 1) = ?s - 1" using s42 by (intro unat_shifts_minus_1) simp
  have s62: "?s \<le> 62 \<and> ?N < 2 ^ (64 - ?s) \<and> inj_on (keyf (m_values st)) {..<?N}"
  proof (cases "m_buckets st")
    case None
    then show ?thesis using validD_None [OF v None] by simp
  next
    case (Some bs)
    note t = tinvD [OF validD_Some(2) [OF v Some]]
    show ?thesis using t(2,3,5,6) by simp
  qed
  have sr: "41 \<le> ?s - 1" "?s - 1 \<le> 61" using s42 s62 by auto
  have n8: "8 \<le> ?n'" and nb: "?n' \<le> 2 ^ 23" using geom_bounds [OF sr refl] by simp_all
  have "(2::nat) ^ (64 - ?s) * 2 = 2 ^ Suc (64 - ?s)" by simp
  also have "Suc (64 - ?s) = 64 - (?s - 1)" using s42 s62 by auto
  finally have dbl: "?n' = 2 ^ (64 - ?s) * 2" by simp
  have N1: "?N + 1 < ?n'" using s62 dbl by auto
  obtain c where al: "allocate_and_clear_buckets ?st0 =
            Some (?st0\<lparr>m_buckets := Some (replicate ?n' empty_bucket),
                     m_max_bucket_capacity := c\<rparr>)"
    and c: "unat c < ?n'"
    using allocate_spec [of ?st0] sr mlf s1 by (auto simp: deallocate_buckets_def)
  let ?st1 = "st\<lparr>m_shifts := m_shifts st - 1, m_max_bucket_capacity := c\<rparr>"
  have st1: "?st0\<lparr>m_buckets := Some (replicate ?n' empty_bucket), m_max_bucket_capacity := c\<rparr>
      = ?st1\<lparr>m_buckets := Some (replicate ?n' empty_bucket)\<rparr>"
    by (simp add: deallocate_buckets_def)
  have N32: "?N < 2 ^ 32"
  proof -
    have "?N < ?n'" using N1 by simp
    also have "?n' \<le> 2 ^ 23" by (rule nb)
    finally show ?thesis by simp
  qed
  have "\<exists>bs'. fill_buckets_loop H (?st1\<lparr>m_buckets := Some (replicate ?n' empty_bucket)\<rparr>) 0
                  (word_of_nat ?N)
                 = Some (?st1\<lparr>m_buckets := Some bs'\<rparr>) \<and>
           length bs' = length (replicate ?n' empty_bucket) \<and>
           tinv (mixed_hash H) (unat (m_shifts ?st1)) (keyf (m_values ?st1)) bs'
             {..<length (m_values ?st1)}"
  proof (rule fill_loop_correct)
    show "tinv (mixed_hash H) (unat (m_shifts ?st1)) (keyf (m_values ?st1))
        (replicate ?n' empty_bucket) {..<unat (0 :: 32 word)}"
      using tinv_replicate [OF sr] s1 by simp
    show "unat (word_of_nat ?N :: 32 word) = length (m_values ?st1)"
      using N32 by (simp add: unat_of_nat)
    show "length (m_values ?st1) < length (replicate ?n' empty_bucket)" using N1 by simp
    show "inj_on (keyf (m_values ?st1)) {..<length (m_values ?st1)}" using s62 by simp
  qed simp
  then obtain bs' where f: "fill_buckets_loop H (?st1\<lparr>m_buckets := Some (replicate ?n' empty_bucket)\<rparr>) 0
                  (word_of_nat ?N) = Some (?st1\<lparr>m_buckets := Some bs'\<rparr>)"
    "length bs' = ?n'"
    "tinv (mixed_hash H) (?s - 1) (keyf (m_values st)) bs' {..<?N}"
    using s1 by auto
  have "increase_size H st = Some (?st1\<lparr>m_buckets := Some bs'\<rparr>)"
    using al f(1) unfolding st1 by (simp add: increase_size_def fill_buckets_from_values_def)
  moreover have "?st1\<lparr>m_buckets := Some bs'\<rparr> =
      st\<lparr>m_shifts := m_shifts st - 1, m_buckets := Some bs', m_max_bucket_capacity := c\<rparr>"
    by simp
  ultimately have "increase_size H st =
      Some (st\<lparr>m_shifts := m_shifts st - 1, m_buckets := Some bs', m_max_bucket_capacity := c\<rparr>)"
    by simp
  moreover have "unat c < length bs'" using c f(2) by simp
  moreover have "?N + 1 < length bs'" using N1 f(2) by simp
  ultimately show ?thesis using f(3) by blast
qed

lemma tinv_cong:
  assumes inv: "tinv hf s kf bs S" and eq: "\<forall>v\<in>S. kf' v = kf v"
  shows "tinv hf s kf' bs S"
proof -
  note t = tinvD [OF inv]
  have wf: "wf_slots (length bs) (\<lambda>v. home s (hf (kf v))) (\<lambda>v. fp_of (hf (kf v))) (DF bs) (VI bs) S"
    using t(7) by (simp add: ainv_def)
  have "wf_slots (length bs) (\<lambda>v. home s (hf (kf' v))) (\<lambda>v. fp_of (hf (kf' v))) (DF bs) (VI bs) S"
    unfolding wf_slots_def
  proof (intro allI impI)
    fix i assume i: "i < length bs" "DF bs i \<noteq> 0"
    then have a: "VI bs i \<in> S" and b: "DF bs i = 256 * (dist_of (length bs) (home s (hf (kf (VI bs i)))) i + 1) + fp_of (hf (kf (VI bs i)))"
      using wf by (simp_all add: wf_slots_def)
    have "kf' (VI bs i) = kf (VI bs i)" using eq a by simp
    then show "VI bs i \<in> S \<and> DF bs i = 256 * (dist_of (length bs) (home s (hf (kf' (VI bs i)))) i + 1) + fp_of (hf (kf' (VI bs i)))"
      using a b by simp
  qed
  then have "ainv (length bs) (\<lambda>v. home s (hf (kf' v))) (\<lambda>v. fp_of (hf (kf' v))) (DF bs) (VI bs) S"
    using t(7) by (simp add: ainv_def)
  moreover have "inj_on kf' S"
    using t(6) eq by (auto simp: inj_on_def)
  ultimately show ?thesis using t(1-5) by (simp add: tinv_def)
qed

lemma prepare_spec:
  assumes v: "valid H st" and g: "is_full st \<longrightarrow> 42 \<le> unat (m_shifts st)"
  shows "\<exists>st1 bs1. (if is_full st then increase_size H st else Some st) = Some st1 \<and>
      m_values st1 = m_values st \<and> m_max_load_factor st1 = m_max_load_factor st \<and>
      m_shifts st1 = (if is_full st then m_shifts st - 1 else m_shifts st) \<and>
      m_buckets st1 = Some bs1 \<and> unat (m_max_bucket_capacity st1) < length bs1 \<and>
      tinv (mixed_hash H) (unat (m_shifts st1)) (keyf (m_values st)) bs1
        {..<length (m_values st)} \<and>
      length (m_values st) + 1 < length bs1"
proof (cases "is_full st")
  case True
  then have s42: "42 \<le> unat (m_shifts st)" using g by simp
  obtain bs1 c where r: "increase_size H st =
             Some (st\<lparr>m_shifts := m_shifts st - 1, m_buckets := Some bs1,
                      m_max_bucket_capacity := c\<rparr>)"
    "unat c < length bs1"
    "tinv (mixed_hash H) (unat (m_shifts st) - 1) (keyf (m_values st)) bs1
             {..<length (m_values st)}"
    "length (m_values st) + 1 < length bs1"
    using increase_size_spec [OF v s42] by blast
  have s1: "unat (m_shifts st - 1) = unat (m_shifts st) - 1"
    using s42 by (intro unat_shifts_minus_1) simp
  show ?thesis
    using True r s1
    by (intro exI [of _ "st\<lparr>m_shifts := m_shifts st - 1, m_buckets := Some bs1,
                      m_max_bucket_capacity := c\<rparr>"] exI [of _ bs1]) simp
next
  case False
  then have cap: "length (m_values st) < unat (m_max_bucket_capacity st)"
    by (simp add: is_full_def size_tbl_def)
  then have "m_buckets st \<noteq> None" using v by (auto simp: valid_def split: option.splits)
  then obtain bs where bs: "m_buckets st = Some bs" by auto
  note d = validD_Some [OF v bs]
  show ?thesis using False bs d cap by (intro exI [of _ st] exI [of _ bs]) simp
qed

lemma unat_vidx:
  assumes "N + 1 < 2 ^ 32"
  shows "unat ((word_of_nat (N + 1) :: 32 word) - 1) = N"
proof -
  have "(word_of_nat (N + 1) :: 32 word) - 1 = word_of_nat N" by simp
  then show ?thesis using assms by (simp add: unat_of_nat)
qed

lemma emplace_traced_spec:
  assumes v: "valid H st" and g: "is_full st \<longrightarrow> 42 \<le> unat (m_shifts st)"
  shows "\<exists>st' it ins ops. emplace_traced H st (k, x) = Some (st', it, ins, ops) \<and> valid H st' \<and>
           m_max_load_factor st' = m_max_load_factor st \<and>
           m_shifts st' = (if is_full st then m_shifts st - 1 else m_shifts st) \<and>
           (if k \<in> fst ` set (m_values st)
            then \<not> ins \<and> ops = [Emplace_back (k, x), Pop_back] \<and>
                 m_values st' = m_values st \<and> it < length (m_values st) \<and>
                 fst (m_values st ! it) = k
            else ins \<and> ops = [Emplace_back (k, x)] \<and>
                 m_values st' = m_values st @ [(k, x)] \<and> it = length (m_values st))"
proof -
  let ?vals = "m_values st" and ?N = "length (m_values st)"
  let ?hf = "mixed_hash H"
  obtain st1 bs1 where p: "(if is_full st then increase_size H st else Some st) = Some st1"
    "m_values st1 = ?vals" "m_max_load_factor st1 = m_max_load_factor st"
    "m_shifts st1 = (if is_full st then m_shifts st - 1 else m_shifts st)"
    "m_buckets st1 = Some bs1" "unat (m_max_bucket_capacity st1) < length bs1"
    "tinv ?hf (unat (m_shifts st1)) (keyf ?vals) bs1 {..<?N}"
    "?N + 1 < length bs1"
    using prepare_spec [OF v g] by blast
  let ?s = "unat (m_shifts st1)" and ?n = "length bs1"
  let ?vals1 = "?vals @ [(k, x)]"
  note t = tinvD [OF p(7)]
  have nb: "?n \<le> 2 ^ 23" using geom_bounds [OF t(1,2,3)] by simp
  have mlf: "0 \<le> m_max_load_factor st" "m_max_load_factor st < 1"
    using v by (simp_all add: valid_def)
  have kf1: "\<forall>v\<in>{..<?N}. keyf ?vals1 v = keyf ?vals v"
    by (simp add: keyf_def nth_append)
  have inv1: "tinv ?hf ?s (keyf ?vals1) bs1 {..<?N}"
    using p(7) kf1 by (rule tinv_cong)
  have vals1: "\<forall>v\<in>{..<?N}. v < length ?vals1 \<and> keyf ?vals1 v = fst (?vals1 ! v)"
    by (simp add: keyf_def)
  obtain r where r: "probe_loop ?vals1 k bs1 (dist_and_fingerprint_from_hash (?hf k)) (home ?s (?hf k)) = Some r"
    and rr: "(case r of
              Found b \<Rightarrow> b < ?n \<and> DF bs1 b \<noteq> 0 \<and> VI bs1 b \<in> {..<?N} \<and> keyf ?vals1 (VI bs1 b) = k
            | Not_Found d' b \<Rightarrow>
                k \<notin> keyf ?vals1 ` {..<?N} \<and> b < ?n \<and>
                unat d' = 256 * (dist_of ?n (home ?s (?hf k)) b + 1) + fp_of (?hf k) \<and>
                DF bs1 b \<le> unat d' \<and>
                (512 \<le> unat d' \<longrightarrow> unat d' \<le> DF bs1 (prevb ?n b) + 256))"
    using probe_spec [OF inv1 vals1, of k] by blast
  have keys: "keyf ?vals1 ` {..<?N} = fst ` set ?vals"
  proof -
    have "keyf ?vals1 ` {..<?N} = keyf ?vals ` {..<?N}" using kf1 by (intro image_cong) simp_all
    also have "\<dots> = (\<lambda>i. fst (?vals ! i)) ` {..<?N}" by (simp add: keyf_def [abs_def])
    also have "\<dots> = fst ` set ?vals"
      by (auto simp: set_conv_nth image_iff) 
    finally show ?thesis .
  qed
  have pre: "emplace_traced H st (k, x) =
      (case r of
        Found bucket \<Rightarrow>
          Some (st1, unat (value_idx (bs1 ! bucket)), False, [Emplace_back (k, x), Pop_back])
      | Not_Found d bucket \<Rightarrow> do {
          st2 \<leftarrow> place_and_shift_up (st1\<lparr>m_values := ?vals1\<rparr>)
                   \<lparr>dist_and_fingerprint = d,
                    value_idx = (word_of_nat ?N :: 32 word)\<rparr> bucket;
          Some (st2, unat (word_of_nat ?N :: 32 word), True, [Emplace_back (k, x)])
        })"
    using p(1,2,5) r t(2)
    by (simp add: emplace_traced_def Let_def get_key_def bucket_from_hash_Some)
  show ?thesis
  proof (cases r)
    case (Found b)
    from rr have "b < ?n \<and> DF bs1 b \<noteq> 0 \<and> VI bs1 b \<in> {..<?N} \<and> keyf ?vals1 (VI bs1 b) = k"
      unfolding Found probe_result.case .
    then have b: "b < ?n" "DF bs1 b \<noteq> 0" "VI bs1 b < ?N" "keyf ?vals1 (VI bs1 b) = k"
      by simp_all
    have "keyf ?vals1 (VI bs1 b) \<in> keyf ?vals1 ` {..<?N}" using b(3) by (intro imageI) simp
    then have kin: "k \<in> fst ` set ?vals" unfolding keys b(4) .
    have e: "emplace_traced H st (k, x) =
        Some (st1, VI bs1 b, False, [Emplace_back (k, x), Pop_back])"
      using pre Found by (simp add: VI_def)
    have "valid H st1"
      using p(2,3,5,6,7) mlf by (simp add: valid_def)
    moreover have "fst (?vals ! VI bs1 b) = k" using b(3,4) by (simp add: keyf_def nth_append)
    ultimately show ?thesis using e kin b(3) p(2,3,4)
      by (intro exI [of _ st1] exI [of _ "VI bs1 b"] exI [of _ False]
          exI [of _ "[Emplace_back (k, x), Pop_back]"]) simp
  next
    case (Not_Found d b)
    from rr have "k \<notin> keyf ?vals1 ` {..<?N} \<and> b < ?n \<and>
                unat d = 256 * (dist_of ?n (home ?s (?hf k)) b + 1) + fp_of (?hf k) \<and>
                DF bs1 b \<le> unat d \<and>
                (512 \<le> unat d \<longrightarrow> unat d \<le> DF bs1 (prevb ?n b) + 256)"
      unfolding Not_Found probe_result.case .
    then have nf: "k \<notin> keyf ?vals1 ` {..<?N}" "b < ?n"
      "unat d = 256 * (dist_of ?n (home ?s (?hf k)) b + 1) + fp_of (?hf k)"
      "DF bs1 b \<le> unat d"
      "512 \<le> unat d \<longrightarrow> unat d \<le> DF bs1 (prevb ?n b) + 256"
      by blast+
    have kout: "k \<notin> fst ` set ?vals" using nf(1) keys by simp
    let ?c = "\<lparr>dist_and_fingerprint = d, value_idx = (word_of_nat ?N :: 32 word)\<rparr>"
    have N32: "?N < 2 ^ 32" using p(8) nb by simp
    have cv: "unat (value_idx ?c) = ?N" using N32 by (simp add: unat_of_nat)
    have kN: "keyf ?vals1 ?N = k" by (simp add: keyf_def)
    have "\<exists>bs'. place_and_shift_up_loop bs1 ?c b = Some bs' \<and> length bs' = ?n \<and>
           tinv ?hf ?s (keyf ?vals1) bs' (insert ?N {..<?N})"
    proof (rule place_tinv [OF inv1])
      show "?N \<notin> {..<?N}" by simp
      show "card {..<?N} + 1 < ?n" using p(8) by simp
      show "inj_on (keyf ?vals1) (insert ?N {..<?N})"
        using tinvD(6) [OF inv1] nf(1) kN by (simp add: inj_on_insert)
      show "unat (value_idx ?c) = ?N" by (rule cv)
      show "unat (dist_and_fingerprint ?c) =
              256 * (dist_of ?n (home ?s (?hf (keyf ?vals1 ?N))) b + 1) + fp_of (?hf (keyf ?vals1 ?N))"
        using nf(3) kN by simp
    qed (use nf in simp_all)
    then obtain bs' where pl: "place_and_shift_up_loop bs1 ?c b = Some bs'" "length bs' = ?n"
      "tinv ?hf ?s (keyf ?vals1) bs' {..<Suc ?N}" by (auto simp: lessThan_Suc)
    let ?st2 = "st1\<lparr>m_values := ?vals1, m_buckets := Some bs'\<rparr>"
    have e: "emplace_traced H st (k, x) = Some (?st2, ?N, True, [Emplace_back (k, x)])"
      using pre Not_Found pl(1) p(5) cv by (simp add: place_and_shift_up_def)
    have "valid H ?st2"
      using pl(2,3) p(3,6) mlf by (simp add: valid_def)
    then show ?thesis using e kout p(3,4)
      by (intro exI [of _ ?st2] exI [of _ ?N] exI [of _ True]
          exI [of _ "[Emplace_back (k, x)]"]) simp
  qed
qed

lemma emplace_spec:
  assumes v: "valid H st" and g: "is_full st \<longrightarrow> 42 \<le> unat (m_shifts st)"
  shows "\<exists>st' it ins. emplace H st (k, x) = Some (st', it, ins) \<and> valid H st' \<and>
           m_max_load_factor st' = m_max_load_factor st \<and>
           m_shifts st' = (if is_full st then m_shifts st - 1 else m_shifts st) \<and>
           (if k \<in> fst ` set (m_values st)
            then \<not> ins \<and> m_values st' = m_values st \<and> it < length (m_values st) \<and>
                 fst (m_values st ! it) = k
            else ins \<and> m_values st' = m_values st @ [(k, x)] \<and> it = length (m_values st))"
proof -
  obtain st' it ins ops where e: "emplace_traced H st (k, x) = Some (st', it, ins, ops)"
    and r: "valid H st'" "m_max_load_factor st' = m_max_load_factor st"
      "m_shifts st' = (if is_full st then m_shifts st - 1 else m_shifts st)"
    and c: "if k \<in> fst ` set (m_values st)
            then \<not> ins \<and> ops = [Emplace_back (k, x), Pop_back] \<and>
                 m_values st' = m_values st \<and> it < length (m_values st) \<and>
                 fst (m_values st ! it) = k
            else ins \<and> ops = [Emplace_back (k, x)] \<and>
                 m_values st' = m_values st @ [(k, x)] \<and> it = length (m_values st)"
    using emplace_traced_spec [OF v g, of k x] by blast
  have "emplace H st (k, x) = Some (st', it, ins)"
    using e by (simp add: emplace_def untraced_def)
  moreover have "if k \<in> fst ` set (m_values st)
            then \<not> ins \<and> m_values st' = m_values st \<and> it < length (m_values st) \<and>
                 fst (m_values st ! it) = k
            else ins \<and> m_values st' = m_values st @ [(k, x)] \<and> it = length (m_values st)"
    using c by (simp split: if_splits)
  ultimately show ?thesis using r by blast
qed

lemma miss_absent':
  assumes inv: "ainv n hm fp (DF bs) (VI bs) S"
    and hmS: "\<forall>v. hm v < n"
    and pre: "\<forall>j'<J. \<not> (DF bs (pos n h0 j') = 256 * (j' + 1) + f \<and> P (VI bs (pos n h0 j')))"
    and stop: "DF bs (pos n h0 J) < 256 * (J + 1) + f"
    and v: "v \<in> S" "hm v = h0" "fp v = f" "P v"
  shows False
proof -
  have wf: "wf_slots n hm fp (DF bs) (VI bs) S" and surj: "surj_slots n (DF bs) (VI bs) S"
    using inv by (simp_all add: ainv_def)
  obtain i where i: "i < n" "DF bs i \<noteq> 0" "VI bs i = v"
    using surj v(1) by (auto simp: surj_slots_def)
  let ?j = "dist_of n h0 i"
  have h0: "h0 < n" using hmS v(2) by auto
  have dfi: "DF bs i = 256 * (?j + 1) + f"
    using wf i v by (auto simp: wf_slots_def)
  have pi: "pos n h0 ?j = i" using h0 i(1) by (rule pos_dist_of)
  show False
  proof (cases "?j < J")
    case True
    with pre pi dfi i(3) v(4) show False by auto
  next
    case False
    then have "J \<le> dist_of n (hm (VI bs i)) i" using i(3) v(2) by simp
    moreover have "hm (VI bs i) < n" using hmS by simp
    ultimately have "256 * (J + 1) + fp (VI bs i) \<le> DF bs (pos n (hm (VI bs i)) J)"
      using ainv_reach [OF inv i(1) i(2)] by blast
    then show False using stop i(3) v by simp
  qed
qed

lemma do_find_loop_correct:
  assumes "DF bs (pos n h0 je) = 0" and "j < je" and "je \<le> n + 2"
    and "length bs = n" and "0 < n" and "n \<le> 2 ^ 23"
    and "unat d = 256 * (j + 1) + f" and "f < 256"
    and "\<forall>i<n. DF bs i \<noteq> 0 \<longrightarrow> VI bs i < length vals"
  shows "\<exists>r. do_find_loop vals k bs d (pos n h0 j) = Some r \<and>
          ((\<exists>b<n. DF bs b \<noteq> 0 \<and> key_at vals bs b = k \<and> r = VI bs b) \<or>
           (r = length vals \<and>
            (\<exists>J. j < J \<and>
               (\<forall>j'. j \<le> j' \<and> j' < J \<longrightarrow>
                  \<not> (DF bs (pos n h0 j') = 256 * (j' + 1) + f \<and> k = key_at vals bs (pos n h0 j'))) \<and>
               DF bs (pos n h0 J) < 256 * (J + 1) + f)))"
  using assms
proof (induction "je - j" arbitrary: j d)
  case 0
  then show ?case by simp
next
  case (Suc m)
  let ?b = "pos n h0 j" and ?b' = "pos n h0 (Suc j)"
  have pl: "?b < length bs" "?b' < length bs" using Suc.prems by (simp_all add: pos_less)
  have d0: "unat d \<noteq> 0" using Suc.prems(7) by simp
  have bm: "bucket_matches vals k bs d ?b = Some (unat d = DF bs ?b \<and> k = key_at vals bs ?b)"
    using pl Suc.prems(9) Suc.prems(4) d0 by (intro bucket_matches_Some) auto
  have "unat d + 256 < 2 ^ 32" using Suc.prems(2,3,6,7,8) by simp
  then have d1: "unat (d + BUCKET_DIST_INC) = 256 * (Suc j + 1) + f"
    using Suc.prems(7) by (simp add: unat_add_INC)
  have nx: "bucket_next bs ?b = ?b'" using pl(1) Suc.prems(4) by (simp add: bucket_next_nextb nextb_pos)
  show ?case
  proof (cases "unat d = DF bs ?b \<and> k = key_at vals bs ?b")
    case True
    have "do_find_loop vals k bs d ?b = Some (VI bs ?b)"
      using bm True by (subst do_find_loop.simps) (simp add: VI_def)
    moreover have "DF bs ?b \<noteq> 0" using True d0 by simp
    ultimately show ?thesis using True pl(1) Suc.prems(4) by auto
  next
    case nm: False
    show ?thesis
    proof (cases "unat (d + BUCKET_DIST_INC) \<le> DF bs ?b'")
      case True
      have "Suc j \<noteq> je" using True d1 Suc.prems(1) by auto
      then have jl: "Suc j < je" using Suc.prems(2) by simp
      have "\<exists>r. do_find_loop vals k bs (d + BUCKET_DIST_INC) (pos n h0 (Suc j)) = Some r \<and>
          ((\<exists>b<n. DF bs b \<noteq> 0 \<and> key_at vals bs b = k \<and> r = VI bs b) \<or>
           (r = length vals \<and>
            (\<exists>J. Suc j < J \<and>
               (\<forall>j'. Suc j \<le> j' \<and> j' < J \<longrightarrow>
                  \<not> (DF bs (pos n h0 j') = 256 * (j' + 1) + f \<and> k = key_at vals bs (pos n h0 j'))) \<and>
               DF bs (pos n h0 J) < 256 * (J + 1) + f)))"
      proof (rule Suc.hyps(1))
        show "m = je - Suc j" using Suc.hyps(2) by simp
        show "Suc j < je" by (rule jl)
      qed (use Suc.prems d1 in simp_all)
      then obtain r where r: "do_find_loop vals k bs (d + BUCKET_DIST_INC) ?b' = Some r"
        and rr: "(\<exists>b<n. DF bs b \<noteq> 0 \<and> key_at vals bs b = k \<and> r = VI bs b) \<or>
           (r = length vals \<and>
            (\<exists>J. Suc j < J \<and>
               (\<forall>j'. Suc j \<le> j' \<and> j' < J \<longrightarrow>
                  \<not> (DF bs (pos n h0 j') = 256 * (j' + 1) + f \<and> k = key_at vals bs (pos n h0 j'))) \<and>
               DF bs (pos n h0 J) < 256 * (J + 1) + f))" by blast
      have e: "do_find_loop vals k bs d ?b = Some r"
        using bm nm True pl r nx by (subst do_find_loop.simps) (simp add: Let_def le_DF)
      from rr show ?thesis
      proof
        assume "\<exists>b<n. DF bs b \<noteq> 0 \<and> key_at vals bs b = k \<and> r = VI bs b"
        then show ?thesis using e by blast
      next
        assume a: "r = length vals \<and>
            (\<exists>J. Suc j < J \<and>
               (\<forall>j'. Suc j \<le> j' \<and> j' < J \<longrightarrow>
                  \<not> (DF bs (pos n h0 j') = 256 * (j' + 1) + f \<and> k = key_at vals bs (pos n h0 j'))) \<and>
               DF bs (pos n h0 J) < 256 * (J + 1) + f)"
        then obtain J where J: "Suc j < J"
          "\<forall>j'. Suc j \<le> j' \<and> j' < J \<longrightarrow>
                  \<not> (DF bs (pos n h0 j') = 256 * (j' + 1) + f \<and> k = key_at vals bs (pos n h0 j'))"
          "DF bs (pos n h0 J) < 256 * (J + 1) + f" by blast
        have "\<forall>j'. j \<le> j' \<and> j' < J \<longrightarrow>
                  \<not> (DF bs (pos n h0 j') = 256 * (j' + 1) + f \<and> k = key_at vals bs (pos n h0 j'))"
        proof (intro allI impI)
          fix j' assume j': "j \<le> j' \<and> j' < J"
          show "\<not> (DF bs (pos n h0 j') = 256 * (j' + 1) + f \<and> k = key_at vals bs (pos n h0 j'))"
          proof (cases "j' = j")
            case True
            then show ?thesis using nm Suc.prems(7) by simp
          next
            case False
            then have "Suc j \<le> j' \<and> j' < J" using j' by simp
            then show ?thesis using J(2) by blast
          qed
        qed
        moreover have "j < J" using J(1) by simp
        ultimately show ?thesis using e a J(3) by blast
      qed
    next
      case False
      have e: "do_find_loop vals k bs d ?b = Some (length vals)"
        using bm nm False pl nx by (subst do_find_loop.simps) (simp add: Let_def le_DF)
      have "\<forall>j'. j \<le> j' \<and> j' < Suc j \<longrightarrow>
                  \<not> (DF bs (pos n h0 j') = 256 * (j' + 1) + f \<and> k = key_at vals bs (pos n h0 j'))"
        using nm Suc.prems(7) by (auto simp: less_Suc_eq)
      moreover have "DF bs (pos n h0 (Suc j)) < 256 * (Suc j + 1) + f"
        using False d1 by simp
      ultimately show ?thesis using e by blast
    qed
  qed
qed

lemma keyf_image: "keyf vals ` {..<length vals} = fst ` set vals"
proof -
  have "keyf vals ` {..<length vals} = (\<lambda>i. fst (vals ! i)) ` {..<length vals}"
    by (simp add: keyf_def [abs_def])
  also have "\<dots> = fst ` set vals"
    by (auto simp: set_conv_nth image_iff)
  finally show ?thesis .
qed

lemma do_find_spec:
  assumes v: "valid H st"
  shows "\<exists>r. do_find H st k = Some r \<and>
           ((r < length (m_values st) \<and> fst (m_values st ! r) = k) \<or>
            (r = length (m_values st) \<and> k \<notin> fst ` set (m_values st)))"
proof (cases "m_values st = []")
  case True
  then show ?thesis by (simp add: do_find_def empty_tbl_def end_it_def)
next
  case False
  let ?vals = "m_values st" and ?N = "length (m_values st)"
  let ?hf = "mixed_hash H" and ?s = "unat (m_shifts st)"
  from False v obtain bs where bs: "m_buckets st = Some bs"
    by (auto simp: valid_def split: option.splits)
  have inv: "tinv ?hf ?s (keyf ?vals) bs {..<?N}" using validD_Some(2) [OF v bs] .
  note t = tinvD [OF inv]
  let ?n = "length bs" and ?h0 = "home ?s (?hf k)" and ?f = "fp_of (?hf k)"
  let ?hm = "\<lambda>v. home ?s (?hf (keyf ?vals v))" and ?fp = "\<lambda>v. fp_of (?hf (keyf ?vals v))"
  have n8: "8 \<le> ?n" and nb: "?n \<le> 2 ^ 23" using geom_bounds [OF t(1,2,3)] by simp_all
  have n0: "0 < ?n" using n8 by auto
  have hl: "\<And>h. home ?s h < ?n" using home_less [of ?s] t(1,2,3) by simp
  have wf: "wf_slots ?n ?hm ?fp (DF bs) (VI bs) {..<?N}" using t(7) by (simp add: ainv_def)
  have rng: "\<forall>i<?n. DF bs i \<noteq> 0 \<longrightarrow> VI bs i < length ?vals"
    using wf by (auto simp: wf_slots_def)
  define P where "P j \<longleftrightarrow> DF bs (pos ?n ?h0 j) = 256 * (j + 1) + ?f \<and> k = key_at ?vals bs (pos ?n ?h0 j)" for j
  let ?d0 = "dist_and_fingerprint_from_hash (?hf k)"
  let ?d1 = "?d0 + BUCKET_DIST_INC"
  let ?d2 = "?d1 + BUCKET_DIST_INC"
  have u0: "unat ?d0 = 256 * (0 + 1) + ?f" by (rule unat_dist_and_fingerprint_from_hash)
  have u1: "unat ?d1 = 256 * (1 + 1) + ?f"
    using u0 fp_less [of "?hf k"] by (simp add: unat_add_INC)
  have "unat ?d1 + 256 < 2 ^ 32" using u1 fp_less [of "?hf k"] by simp
  then have "unat ?d2 = unat ?d1 + 256" by (rule unat_add_INC)
  also have "\<dots> = 256 * (2 + 1) + ?f" by (simp only: u1) simp
  finally have u2: "unat ?d2 = 256 * (2 + 1) + ?f" .
  have b0: "pos ?n ?h0 0 = ?h0" using hl by (simp add: pos_0)
  have pl: "\<And>j. pos ?n ?h0 j < ?n" by (rule pos_less [OF n0])
  have nx: "\<And>j. bucket_next bs (pos ?n ?h0 j) = pos ?n ?h0 (Suc j)"
    using pl by (simp add: bucket_next_nextb nextb_pos)
  have m0: "bucket_matches ?vals k bs ?d0 (pos ?n ?h0 0) = Some (P 0)"
    unfolding P_def using pl rng u0
    by (subst bucket_matches_Some) auto
  have m1: "bucket_matches ?vals k bs ?d1 (pos ?n ?h0 1) = Some (P 1)"
    unfolding P_def using pl rng u1
    by (subst bucket_matches_Some) auto
  have hit: "\<And>j. P j \<Longrightarrow> VI bs (pos ?n ?h0 j) < ?N \<and> fst (?vals ! VI bs (pos ?n ?h0 j)) = k"
  proof -
    fix j assume "P j"
    then have "DF bs (pos ?n ?h0 j) \<noteq> 0" "k = key_at ?vals bs (pos ?n ?h0 j)"
      by (simp_all add: P_def)
    then show "VI bs (pos ?n ?h0 j) < ?N \<and> fst (?vals ! VI bs (pos ?n ?h0 j)) = k"
      using rng pl by (simp add: key_at_def)
  qed
  have unroll: "do_find H st k =
      (if P 0 then Some (VI bs (pos ?n ?h0 0))
       else if P 1 then Some (VI bs (pos ?n ?h0 1))
       else do_find_loop ?vals k bs ?d2 (pos ?n ?h0 2))"
    using False bs t(2) m0 m1 nx [of 0] nx [of 1] b0
    by (simp add: do_find_def empty_tbl_def Let_def bucket_from_hash_Some VI_def
        numeral_2_eq_2)
  show ?thesis
  proof (cases "P 0")
    case True
    then show ?thesis using unroll hit [of 0] by auto
  next
    case n0': False
    show ?thesis
    proof (cases "P 1")
      case True
      then show ?thesis using unroll n0' hit [of 1] by auto
    next
      case n1': False
      obtain je0 where je0: "je0 < ?n" "DF bs (pos ?n ?h0 je0) = 0"
        using tinv_empty_from [OF inv hl] by blast
      define je where "je = (if 2 < je0 then je0 else je0 + ?n)"
      have pw: "pos ?n ?h0 (je0 + ?n) = pos ?n ?h0 je0"
        by (simp add: pos_def add.assoc [symmetric])
      have je: "2 < je" "je \<le> ?n + 2" "DF bs (pos ?n ?h0 je) = 0"
        using je0 n8 pw by (auto simp: je_def)
      have "\<exists>r. do_find_loop ?vals k bs ?d2 (pos ?n ?h0 2) = Some r \<and>
          ((\<exists>b<?n. DF bs b \<noteq> 0 \<and> key_at ?vals bs b = k \<and> r = VI bs b) \<or>
           (r = length ?vals \<and>
            (\<exists>J. 2 < J \<and>
               (\<forall>j'. 2 \<le> j' \<and> j' < J \<longrightarrow>
                  \<not> (DF bs (pos ?n ?h0 j') = 256 * (j' + 1) + ?f \<and> k = key_at ?vals bs (pos ?n ?h0 j'))) \<and>
               DF bs (pos ?n ?h0 J) < 256 * (J + 1) + ?f)))"
        using je n0 nb u2 rng
        by (intro do_find_loop_correct [where je = je]) (simp_all add: fp_less)
      then obtain r where r: "do_find_loop ?vals k bs ?d2 (pos ?n ?h0 2) = Some r"
        and rr: "(\<exists>b<?n. DF bs b \<noteq> 0 \<and> key_at ?vals bs b = k \<and> r = VI bs b) \<or>
           (r = ?N \<and>
            (\<exists>J. 2 < J \<and> (\<forall>j'. 2 \<le> j' \<and> j' < J \<longrightarrow> \<not> P j') \<and>
               DF bs (pos ?n ?h0 J) < 256 * (J + 1) + ?f))"
        unfolding P_def by blast
      have e: "do_find H st k = Some r" using unroll n0' n1' r by simp
      from rr show ?thesis
      proof
        assume "\<exists>b<?n. DF bs b \<noteq> 0 \<and> key_at ?vals bs b = k \<and> r = VI bs b"
        then obtain b where b: "b < ?n" "DF bs b \<noteq> 0" "key_at ?vals bs b = k" "r = VI bs b"
          by blast
        then have "r < ?N \<and> fst (?vals ! r) = k" using rng by (simp add: key_at_def)
        then show ?thesis using e by blast
      next
        assume "r = ?N \<and>
            (\<exists>J. 2 < J \<and> (\<forall>j'. 2 \<le> j' \<and> j' < J \<longrightarrow> \<not> P j') \<and>
               DF bs (pos ?n ?h0 J) < 256 * (J + 1) + ?f)"
        then obtain J where rN: "r = ?N" and J: "2 < J" "\<forall>j'. 2 \<le> j' \<and> j' < J \<longrightarrow> \<not> P j'"
          "DF bs (pos ?n ?h0 J) < 256 * (J + 1) + ?f" by blast
        have allP: "\<forall>j'<J. \<not> P j'"
        proof (intro allI impI)
          fix j' assume "j' < J"
          show "\<not> P j'"
          proof (cases "j' < 2")
            case True
            then have "j' = 0 \<or> j' = 1" by auto
            then show ?thesis using n0' n1' by auto
          next
            case False
            then show ?thesis using J(2) \<open>j' < J\<close> by simp
          qed
        qed
        have "k \<notin> fst ` set ?vals"
        proof
          assume "k \<in> fst ` set ?vals"
          then have "k \<in> keyf ?vals ` {..<?N}" by (simp add: keyf_image)
          then obtain u where u: "u < ?N" "keyf ?vals u = k" by auto
          have pre: "\<forall>j'<J. \<not> (DF bs (pos ?n ?h0 j') = 256 * (j' + 1) + ?f \<and>
                  (\<lambda>w. w < ?N \<and> keyf ?vals w = k) (VI bs (pos ?n ?h0 j')))"
          proof (intro allI impI notI)
            fix j' assume j': "j' < J"
              and a: "DF bs (pos ?n ?h0 j') = 256 * (j' + 1) + ?f \<and>
                  (VI bs (pos ?n ?h0 j') < ?N \<and> keyf ?vals (VI bs (pos ?n ?h0 j')) = k)"
            then have "P j'" by (auto simp: P_def key_at_def keyf_def)
            with allP j' show False by simp
          qed
          show False
            by (rule miss_absent' [OF t(7) _ pre J(3), of u]) (use hl u in simp_all)
        qed
        then show ?thesis using e rN by blast
      qed
    qed
  qed
qed

lemma try_emplace_traced_spec:
  assumes v: "valid H st" and g: "is_full st \<longrightarrow> 42 \<le> unat (m_shifts st)"
  shows "\<exists>st' it ins ops. do_try_emplace_traced H st k x = Some (st', it, ins, ops) \<and>
           valid H st' \<and>
           m_max_load_factor st' = m_max_load_factor st \<and>
           m_shifts st' = (if is_full st then m_shifts st - 1 else m_shifts st) \<and>
           (if k \<in> fst ` set (m_values st)
            then \<not> ins \<and> ops = [] \<and> m_values st' = m_values st \<and>
                 it < length (m_values st) \<and> fst (m_values st ! it) = k
            else ins \<and> ops = [Emplace_back (k, x)] \<and>
                 m_values st' = m_values st @ [(k, x)] \<and> it = length (m_values st))"
proof -
  let ?vals = "m_values st" and ?N = "length (m_values st)"
  let ?hf = "mixed_hash H"
  obtain st1 bs1 where p: "(if is_full st then increase_size H st else Some st) = Some st1"
    "m_values st1 = ?vals" "m_max_load_factor st1 = m_max_load_factor st"
    "m_shifts st1 = (if is_full st then m_shifts st - 1 else m_shifts st)"
    "m_buckets st1 = Some bs1" "unat (m_max_bucket_capacity st1) < length bs1"
    "tinv ?hf (unat (m_shifts st1)) (keyf ?vals) bs1 {..<?N}"
    "?N + 1 < length bs1"
    using prepare_spec [OF v g] by blast
  let ?s = "unat (m_shifts st1)" and ?n = "length bs1"
  let ?vals1 = "?vals @ [(k, x)]"
  note t = tinvD [OF p(7)]
  have nb: "?n \<le> 2 ^ 23" using geom_bounds [OF t(1,2,3)] by simp
  have mlf: "0 \<le> m_max_load_factor st" "m_max_load_factor st < 1"
    using v by (simp_all add: valid_def)
  have kf1: "\<forall>v\<in>{..<?N}. keyf ?vals1 v = keyf ?vals v"
    by (simp add: keyf_def nth_append)
  have inv1: "tinv ?hf ?s (keyf ?vals1) bs1 {..<?N}"
    using p(7) kf1 by (rule tinv_cong)
  have vals0: "\<forall>v\<in>{..<?N}. v < length ?vals \<and> keyf ?vals v = fst (?vals ! v)"
    by (simp add: keyf_def)
  obtain r where r: "probe_loop ?vals k bs1 (dist_and_fingerprint_from_hash (?hf k)) (home ?s (?hf k)) = Some r"
    and rr: "(case r of
              Found b \<Rightarrow> b < ?n \<and> DF bs1 b \<noteq> 0 \<and> VI bs1 b \<in> {..<?N} \<and> keyf ?vals (VI bs1 b) = k
            | Not_Found d' b \<Rightarrow>
                k \<notin> keyf ?vals ` {..<?N} \<and> b < ?n \<and>
                unat d' = 256 * (dist_of ?n (home ?s (?hf k)) b + 1) + fp_of (?hf k) \<and>
                DF bs1 b \<le> unat d' \<and>
                (512 \<le> unat d' \<longrightarrow> unat d' \<le> DF bs1 (prevb ?n b) + 256))"
    using probe_spec [OF p(7) vals0, of k] by blast
  have pre: "do_try_emplace_traced H st k x =
      (case r of
        Found bucket \<Rightarrow>
          Some (st1, unat (value_idx (bs1 ! bucket)), False, [])
      | Not_Found d bucket \<Rightarrow> do {
          st2 \<leftarrow> place_and_shift_up (st1\<lparr>m_values := ?vals1\<rparr>)
                   \<lparr>dist_and_fingerprint = d,
                    value_idx = (word_of_nat ?N :: 32 word)\<rparr> bucket;
          Some (st2, unat (word_of_nat ?N :: 32 word), True, [Emplace_back (k, x)])
        })"
    using p(1,2,5) r t(2)
    by (simp add: do_try_emplace_traced_def Let_def bucket_from_hash_Some)
  show ?thesis
  proof (cases r)
    case (Found b)
    from rr have "b < ?n \<and> DF bs1 b \<noteq> 0 \<and> VI bs1 b \<in> {..<?N} \<and> keyf ?vals (VI bs1 b) = k"
      unfolding Found probe_result.case .
    then have b: "b < ?n" "DF bs1 b \<noteq> 0" "VI bs1 b < ?N" "keyf ?vals (VI bs1 b) = k"
      by simp_all
    have "keyf ?vals (VI bs1 b) \<in> keyf ?vals ` {..<?N}" using b(3) by (intro imageI) simp
    then have kin: "k \<in> fst ` set ?vals" unfolding keyf_image b(4) .
    have e: "do_try_emplace_traced H st k x = Some (st1, VI bs1 b, False, [])"
      using pre Found by (simp add: VI_def)
    have "valid H st1"
      using p(2,3,5,6,7) mlf by (simp add: valid_def)
    moreover have "fst (?vals ! VI bs1 b) = k" using b(3,4) by (simp add: keyf_def)
    ultimately show ?thesis using e kin b(3) p(2,3,4)
      by (intro exI [of _ st1] exI [of _ "VI bs1 b"] exI [of _ False] exI [of _ "[]"]) simp
  next
    case (Not_Found d b)
    from rr have "k \<notin> keyf ?vals ` {..<?N} \<and> b < ?n \<and>
                unat d = 256 * (dist_of ?n (home ?s (?hf k)) b + 1) + fp_of (?hf k) \<and>
                DF bs1 b \<le> unat d \<and>
                (512 \<le> unat d \<longrightarrow> unat d \<le> DF bs1 (prevb ?n b) + 256)"
      unfolding Not_Found probe_result.case .
    then have nf: "k \<notin> keyf ?vals ` {..<?N}" "b < ?n"
      "unat d = 256 * (dist_of ?n (home ?s (?hf k)) b + 1) + fp_of (?hf k)"
      "DF bs1 b \<le> unat d"
      "512 \<le> unat d \<longrightarrow> unat d \<le> DF bs1 (prevb ?n b) + 256"
      by blast+
    have kout: "k \<notin> fst ` set ?vals" using nf(1) by (simp add: keyf_image)
    have kout1: "k \<notin> keyf ?vals1 ` {..<?N}"
    proof -
      have "keyf ?vals1 ` {..<?N} = keyf ?vals ` {..<?N}" using kf1 by (intro image_cong) simp_all
      then show ?thesis using nf(1) by simp
    qed
    let ?c = "\<lparr>dist_and_fingerprint = d, value_idx = (word_of_nat ?N :: 32 word)\<rparr>"
    have N32: "?N < 2 ^ 32" using p(8) nb by simp
    have cv: "unat (value_idx ?c) = ?N" using N32 by (simp add: unat_of_nat)
    have kN: "keyf ?vals1 ?N = k" by (simp add: keyf_def)
    have "\<exists>bs'. place_and_shift_up_loop bs1 ?c b = Some bs' \<and> length bs' = ?n \<and>
           tinv ?hf ?s (keyf ?vals1) bs' (insert ?N {..<?N})"
    proof (rule place_tinv [OF inv1])
      show "?N \<notin> {..<?N}" by simp
      show "card {..<?N} + 1 < ?n" using p(8) by simp
      show "inj_on (keyf ?vals1) (insert ?N {..<?N})"
        using tinvD(6) [OF inv1] kout1 kN by (simp add: inj_on_insert)
      show "unat (value_idx ?c) = ?N" by (rule cv)
      show "unat (dist_and_fingerprint ?c) =
              256 * (dist_of ?n (home ?s (?hf (keyf ?vals1 ?N))) b + 1) + fp_of (?hf (keyf ?vals1 ?N))"
        using nf(3) kN by simp
    qed (use nf in simp_all)
    then obtain bs' where pl: "place_and_shift_up_loop bs1 ?c b = Some bs'" "length bs' = ?n"
      "tinv ?hf ?s (keyf ?vals1) bs' {..<Suc ?N}" by (auto simp: lessThan_Suc)
    let ?st2 = "st1\<lparr>m_values := ?vals1, m_buckets := Some bs'\<rparr>"
    have e: "do_try_emplace_traced H st k x = Some (?st2, ?N, True, [Emplace_back (k, x)])"
      using pre Not_Found pl(1) p(5) cv by (simp add: place_and_shift_up_def)
    have "valid H ?st2"
      using pl(2,3) p(3,6) mlf by (simp add: valid_def)
    then show ?thesis using e kout p(3,4)
      by (intro exI [of _ ?st2] exI [of _ ?N] exI [of _ True]
          exI [of _ "[Emplace_back (k, x)]"]) simp
  qed
qed

lemma try_emplace_spec:
  assumes v: "valid H st" and g: "is_full st \<longrightarrow> 42 \<le> unat (m_shifts st)"
  shows "\<exists>st' it ins. do_try_emplace H st k x = Some (st', it, ins) \<and> valid H st' \<and>
           m_max_load_factor st' = m_max_load_factor st \<and>
           m_shifts st' = (if is_full st then m_shifts st - 1 else m_shifts st) \<and>
           (if k \<in> fst ` set (m_values st)
            then \<not> ins \<and> m_values st' = m_values st \<and> it < length (m_values st) \<and>
                 fst (m_values st ! it) = k
            else ins \<and> m_values st' = m_values st @ [(k, x)] \<and> it = length (m_values st))"
proof -
  obtain st' it ins ops where e: "do_try_emplace_traced H st k x = Some (st', it, ins, ops)"
    and r: "valid H st'" "m_max_load_factor st' = m_max_load_factor st"
      "m_shifts st' = (if is_full st then m_shifts st - 1 else m_shifts st)"
    and c: "if k \<in> fst ` set (m_values st)
            then \<not> ins \<and> ops = [] \<and> m_values st' = m_values st \<and>
                 it < length (m_values st) \<and> fst (m_values st ! it) = k
            else ins \<and> ops = [Emplace_back (k, x)] \<and>
                 m_values st' = m_values st @ [(k, x)] \<and> it = length (m_values st)"
    using try_emplace_traced_spec [OF v g, of k x] by blast
  have "do_try_emplace H st k x = Some (st', it, ins)"
    using e by (simp add: do_try_emplace_def untraced_def)
  moreover have "if k \<in> fst ` set (m_values st)
            then \<not> ins \<and> m_values st' = m_values st \<and> it < length (m_values st) \<and>
                 fst (m_values st ! it) = k
            else ins \<and> m_values st' = m_values st @ [(k, x)] \<and> it = length (m_values st)"
    using c by (simp split: if_splits)
  ultimately show ?thesis using r by blast
qed

lemma dist_of_nextb_mod:
  assumes "h < n"
  shows "dist_of n h (nextb n p) = (dist_of n h p + 1) mod n"
proof -
  have e1: "\<And>x::nat. x + n - h = x + (n - h)" using assms(1) by arith
  have "dist_of n h (nextb n p) = ((p + 1) mod n + (n - h)) mod n"
    by (simp only: dist_of_def nextb_def e1)
  also have "\<dots> = ((p + (n - h)) mod n + 1) mod n"
    by (simp add: mod_simps)
  also have "\<dots> = (dist_of n h p + 1) mod n"
    by (simp only: dist_of_def e1)
  finally show ?thesis .
qed

lemma dist_of_prev:
  assumes "h < n" and "1 \<le> dist_of n h (nextb n p)"
  shows "dist_of n h p + 1 = dist_of n h (nextb n p)"
proof -
  have n0: "0 < n" using assms(1) by simp
  have m: "dist_of n h (nextb n p) = (dist_of n h p + 1) mod n"
    using assms(1) by (rule dist_of_nextb_mod)
  have "dist_of n h p < n" using n0 by (rule dist_of_less)
  then have "dist_of n h p + 1 < n \<or> dist_of n h p + 1 = n" by arith
  then show ?thesis
  proof
    assume "dist_of n h p + 1 < n"
    then show ?thesis using m by simp
  next
    assume "dist_of n h p + 1 = n"
    then have "dist_of n h (nextb n p) = 0" using m by simp
    then show ?thesis using assms(2) by simp
  qed
qed

lemma erase_init:
  assumes inv: "ainv n hm fp df vi S" and b: "b < n" and ne: "df b \<noteq> 0" and n3: "3 \<le> n"
  shows "hole_inv n hm fp df vi b (S - {vi b})"
proof -
  have wf: "wf_slots n hm fp df vi S" and inj: "inj_slots n df vi"
    and surj: "surj_slots n df vi S" and ordd: "\<forall>i<n. ordered_at n df i"
    using inv by (simp_all add: ainv_def)
  have other: "\<And>i. i < n \<Longrightarrow> i \<noteq> b \<Longrightarrow> df i \<noteq> 0 \<Longrightarrow> vi i \<noteq> vi b"
    using inj b ne by (auto simp: inj_slots_def)
  have 1: "wf_slots n hm fp (df(b := 0)) vi (S - {vi b})"
    using wf other by (auto simp: wf_slots_def)
  have 2: "inj_slots n (df(b := 0)) vi"
    using inj unfolding inj_slots_def by (auto split: if_splits)
  have 3: "surj_slots n (df(b := 0)) vi (S - {vi b})"
    unfolding surj_slots_def
  proof
    fix v assume "v \<in> S - {vi b}"
    then have v: "v \<in> S" "v \<noteq> vi b" by auto
    then obtain i where "i < n" "df i \<noteq> 0" "vi i = v"
      using surj by (auto simp: surj_slots_def)
    moreover then have "i \<noteq> b" using v by auto
    ultimately show "\<exists>i<n. (df(b := 0)) i \<noteq> 0 \<and> vi i = v" by (intro exI [of _ i]) simp
  qed
  have 4: "\<forall>i<n. i \<noteq> nextb n b \<longrightarrow> ordered_at n (df(b := 0)) i"
  proof (intro allI impI)
    fix i assume i: "i < n" "i \<noteq> nextb n b"
    have o: "ordered_at n df i" using ordd i by simp
    have "prevb n i \<noteq> b" using prevb_eq_iff [OF b i(1)] i(2) by simp
    then show "ordered_at n (df(b := 0)) i" using o by (auto simp: ordered_at_def)
  qed
  have nl: "nextb n b < n" using b by (simp add: nextb_less)
  have 5: "768 \<le> df (nextb n b) \<longrightarrow> df (nextb n b) \<le> df (prevb n b) + 512"
  proof
    assume a: "768 \<le> df (nextb n b)"
    have "ordered_at n df (nextb n b)" using ordd nl by simp
    then have x: "df (nextb n b) \<le> df b + 256"
      using a prevb_nextb [OF b] by (simp add: ordered_at_def)
    then have "512 \<le> df b" using a by simp
    moreover have "ordered_at n df b" using ordd b by simp
    ultimately have "df b \<le> df (prevb n b) + 256" by (simp add: ordered_at_def)
    then show "df (nextb n b) \<le> df (prevb n b) + 512" using x by simp
  qed
  show ?thesis using 1 2 3 4 5 by (simp add: hole_inv_def)
qed

lemma erase_end:
  assumes h: "hole_inv n hm fp df vi b S" and b: "b < n" and stop: "df (nextb n b) < 512"
    and n2: "2 \<le> n"
  shows "ainv n hm fp (df(b := 0)) (vi(b := w)) S"
proof -
  from h have wf: "wf_slots n hm fp (df(b := 0)) vi S" and inj: "inj_slots n (df(b := 0)) vi"
    and surj: "surj_slots n (df(b := 0)) vi S"
    and ordd: "\<forall>i<n. i \<noteq> nextb n b \<longrightarrow> ordered_at n (df(b := 0)) i"
    unfolding hole_inv_def by blast+
  have 1: "wf_slots n hm fp (df(b := 0)) (vi(b := w)) S"
    unfolding wf_slots_def
  proof (intro allI impI)
    fix i assume i: "i < n" "(df(b := 0)) i \<noteq> 0"
    then have "i \<noteq> b" by auto
    then show "(vi(b := w)) i \<in> S \<and>
        (df(b := 0)) i = 256 * (dist_of n (hm ((vi(b := w)) i)) i + 1) + fp ((vi(b := w)) i)"
      using wf i unfolding wf_slots_def by simp
  qed
  have 2: "inj_slots n (df(b := 0)) (vi(b := w))"
    unfolding inj_slots_def
  proof (intro allI impI)
    fix i j assume i: "i < n" and j: "j < n"
      and di: "(df(b := 0)) i \<noteq> 0" and dj: "(df(b := 0)) j \<noteq> 0"
      and eq: "(vi(b := w)) i = (vi(b := w)) j"
    have "i \<noteq> b" "j \<noteq> b" using di dj by auto
    then have "vi i = vi j" using eq by simp
    then show "i = j" using inj i j di dj unfolding inj_slots_def by blast
  qed
  have 3: "surj_slots n (df(b := 0)) (vi(b := w)) S"
    unfolding surj_slots_def
  proof
    fix v assume "v \<in> S"
    then obtain i where i: "i < n" "(df(b := 0)) i \<noteq> 0" "vi i = v"
      using surj unfolding surj_slots_def by blast
    then have "i \<noteq> b" by auto
    then show "\<exists>i<n. (df(b := 0)) i \<noteq> 0 \<and> (vi(b := w)) i = v"
      using i by (intro exI [of _ i]) simp
  qed
  have nb: "nextb n b \<noteq> b" using n2 b by (rule nextb_neq)
  have 4: "\<forall>i<n. ordered_at n (df(b := 0)) i"
  proof (intro allI impI)
    fix i assume i: "i < n"
    show "ordered_at n (df(b := 0)) i"
    proof (cases "i = nextb n b")
      case True
      then show ?thesis using stop nb by (simp add: ordered_at_def)
    next
      case False
      then show ?thesis using ordd i by simp
    qed
  qed
  show ?thesis using 1 2 3 4 by (simp add: ainv_def)
qed

lemma erase_step:
  assumes h: "hole_inv n hm fp df vi b S" and b: "b < n"
    and go: "512 \<le> df (nextb n b)" and n3: "3 \<le> n"
    and hm: "\<forall>v. hm v < n" and fp: "\<forall>v. fp v < 256"
  shows "hole_inv n hm fp (df(b := df (nextb n b) - 256)) (vi(b := vi (nextb n b))) (nextb n b) S"
proof -
  let ?nb = "nextb n b" and ?nnb = "nextb n (nextb n b)"
  let ?df1 = "df(b := df ?nb - 256)" and ?vi1 = "vi(b := vi ?nb)"
  from h have wf: "wf_slots n hm fp (df(b := 0)) vi S" and inj: "inj_slots n (df(b := 0)) vi"
    and surj: "surj_slots n (df(b := 0)) vi S"
    and ordd: "\<forall>i<n. i \<noteq> ?nb \<longrightarrow> ordered_at n (df(b := 0)) i"
    and cc: "768 \<le> df ?nb \<longrightarrow> df ?nb \<le> df (prevb n b) + 512"
    unfolding hole_inv_def by blast+
  have n0: "0 < n" using b by simp
  have nl: "?nb < n" and nnl: "?nnb < n" using n0 by (simp_all add: nextb_less)
  have nb: "?nb \<noteq> b" using n3 b by (intro nextb_neq) simp_all
  have nnb: "?nnb \<noteq> ?nb" using n3 nl by (intro nextb_neq) simp_all
  have nnb': "?nnb \<noteq> b" using n3 b by (auto simp: nextb_if split: if_splits)
  have pb: "prevb n b \<noteq> b" "prevb n b \<noteq> ?nb" "prevb n b < n"
    using n3 b by (auto simp: nextb_if prevb_if split: if_splits)
  have dh: "df1h = (df(b := 0))(b := df ?nb - 256, ?nb := 0)" if "df1h = ?df1(?nb := 0)" for df1h
    using that by simp
  have nbwf: "vi ?nb \<in> S" "df ?nb = 256 * (dist_of n (hm (vi ?nb)) ?nb + 1) + fp (vi ?nb)"
    using wf nl nb go by (auto simp: wf_slots_def)
  have "1 \<le> dist_of n (hm (vi ?nb)) ?nb"
  proof (rule ccontr)
    assume "\<not> 1 \<le> dist_of n (hm (vi ?nb)) ?nb"
    then have "df ?nb = 256 + fp (vi ?nb)" using nbwf(2) by simp
    then show False using go fp [rule_format, of "vi ?nb"] by simp
  qed
  then have dprev: "dist_of n (hm (vi ?nb)) b + 1 = dist_of n (hm (vi ?nb)) ?nb"
    using hm by (intro dist_of_prev) simp_all
  have bD: "df ?nb - 256 = 256 * (dist_of n (hm (vi ?nb)) b + 1) + fp (vi ?nb)"
    using nbwf(2) dprev [symmetric] by simp
  have bne: "df ?nb - 256 \<noteq> 0" using go by simp
  have 1: "wf_slots n hm fp (?df1(?nb := 0)) ?vi1 S"
    unfolding wf_slots_def
  proof (intro allI impI)
    fix i assume i: "i < n" "(?df1(?nb := 0)) i \<noteq> 0"
    show "?vi1 i \<in> S \<and> (?df1(?nb := 0)) i = 256 * (dist_of n (hm (?vi1 i)) i + 1) + fp (?vi1 i)"
    proof (cases "i = b")
      case True
      then show ?thesis using nbwf(1) bD nb by simp
    next
      case False
      then have "i \<noteq> ?nb" using i(2) by auto
      then show ?thesis using wf i False by (auto simp: wf_slots_def)
    qed
  qed
  have 2: "inj_slots n (?df1(?nb := 0)) ?vi1"
    unfolding inj_slots_def
  proof (intro allI impI)
    fix i j assume i: "i < n" and j: "j < n"
      and di: "(?df1(?nb := 0)) i \<noteq> 0" and dj: "(?df1(?nb := 0)) j \<noteq> 0"
      and eq: "?vi1 i = ?vi1 j"
    have ii: "i \<noteq> ?nb" and jj: "j \<noteq> ?nb" using di dj by auto
    have dn: "(df(b := 0)) ?nb \<noteq> 0" using go nb by simp
    show "i = j"
    proof (cases "i = b")
      case ib: True
      show ?thesis
      proof (cases "j = b")
        case True
        then show ?thesis using ib by simp
      next
        case False
        then have "(df(b := 0)) j \<noteq> 0" "vi j = vi ?nb" using dj jj eq ib by auto
        then have "j = ?nb" using inj j nl dn unfolding inj_slots_def by blast
        then show ?thesis using jj by simp
      qed
    next
      case ib: False
      show ?thesis
      proof (cases "j = b")
        case True
        then have "(df(b := 0)) i \<noteq> 0" "vi i = vi ?nb" using di ii eq ib by auto
        then have "i = ?nb" using inj i nl dn unfolding inj_slots_def by blast
        then show ?thesis using ii by simp
      next
        case False
        then have "(df(b := 0)) i \<noteq> 0" "(df(b := 0)) j \<noteq> 0" "vi i = vi j"
          using di dj ii jj eq ib by auto
        then show ?thesis using inj i j unfolding inj_slots_def by blast
      qed
    qed
  qed
  have 3: "surj_slots n (?df1(?nb := 0)) ?vi1 S"
    unfolding surj_slots_def
  proof
    fix v assume "v \<in> S"
    then obtain i where i: "i < n" "(df(b := 0)) i \<noteq> 0" "vi i = v"
      using surj unfolding surj_slots_def by blast
    then have ib: "i \<noteq> b" by auto
    show "\<exists>i<n. (?df1(?nb := 0)) i \<noteq> 0 \<and> ?vi1 i = v"
    proof (cases "i = ?nb")
      case True
      then show ?thesis using b bne nb i(3) by (intro exI [of _ b]) simp
    next
      case False
      then show ?thesis using i ib by (intro exI [of _ i]) simp
    qed
  qed
  have 4: "\<forall>i<n. i \<noteq> ?nnb \<longrightarrow> ordered_at n (?df1(?nb := 0)) i"
  proof (intro allI impI)
    fix i assume i: "i < n" "i \<noteq> ?nnb"
    show "ordered_at n (?df1(?nb := 0)) i"
    proof (cases "i = ?nb")
      case True
      then show ?thesis by (simp add: ordered_at_def)
    next
      case inb: False
      show ?thesis
      proof (cases "i = b")
        case True
        have "512 \<le> df ?nb - 256 \<longrightarrow> df ?nb - 256 \<le> df (prevb n b) + 256"
          using cc by auto
        then show ?thesis using True nb pb by (simp add: ordered_at_def)
      next
        case False
        have p1: "prevb n i \<noteq> b" using prevb_eq_iff [OF b i(1)] inb by simp
        have p2: "prevb n i \<noteq> ?nb" using prevb_eq_iff [OF nl i(1)] i(2) by simp
        have "ordered_at n (df(b := 0)) i" using ordd i(1) inb by simp
        then show ?thesis using False inb p1 p2 by (simp add: ordered_at_def)
      qed
    qed
  qed
  have 5: "768 \<le> ?df1 ?nnb \<longrightarrow> ?df1 ?nnb \<le> ?df1 (prevb n ?nb) + 512"
  proof
    assume a: "768 \<le> ?df1 ?nnb"
    then have a': "768 \<le> df ?nnb" using nnb' by simp
    have "ordered_at n (df(b := 0)) ?nnb" using ordd nnl nnb by simp
    then have "df ?nnb \<le> df ?nb + 256"
      using a' nnb' nb prevb_nextb [OF nl] by (simp add: ordered_at_def)
    then show "?df1 ?nnb \<le> ?df1 (prevb n ?nb) + 512"
      using nnb' prevb_nextb [OF b] go by simp
  qed
  show ?thesis using 1 2 3 4 5 unfolding hole_inv_def by blast
qed

lemma ge_2INC: "BUCKET_DIST_INC * 2 \<le> dist_and_fingerprint (bs ! b) \<longleftrightarrow> 512 \<le> DF bs b"
  by (simp add: DF_def word_le_nat_alt BUCKET_DIST_INC_def)

lemma unat_sub_INC: "256 \<le> unat d \<Longrightarrow> unat (d - BUCKET_DIST_INC) = unat d - 256"
proof -
  assume "256 \<le> unat d"
  then have "BUCKET_DIST_INC \<le> d" by (simp add: word_le_nat_alt BUCKET_DIST_INC_def)
  then have "unat (d - BUCKET_DIST_INC) = unat d - unat BUCKET_DIST_INC" by (rule unat_sub)
  then show ?thesis by (simp add: BUCKET_DIST_INC_def)
qed

lemma shift_loop:
  assumes "DF bs (pos n (nextb n b) m) = 0"
    and "length bs = n" and "3 \<le> n"
    and "hole_inv n hm fp (DF bs) (VI bs) b S" and "b < n" and "DF bs b \<noteq> 0"
    and "\<forall>v. hm v < n" and "\<forall>v. fp v < 256"
  shows "\<exists>bs1 b1. do_erase_shift_loop bs b (nextb n b) = Some (bs1, b1) \<and>
           length bs1 = n \<and> b1 < n \<and>
           ainv n hm fp (DF (bs1[b1 := empty_bucket])) (VI (bs1[b1 := empty_bucket])) S"
  using assms
proof (induction m arbitrary: bs b)
  case 0
  have n0: "0 < n" using "0.prems"(3) by simp
  have nl: "nextb n b < n" using n0 by (rule nextb_less)
  have z: "DF bs (nextb n b) = 0" using "0.prems"(1) nl by (simp add: pos_0')
  have e: "do_erase_shift_loop bs b (nextb n b) = Some (bs, b)"
    using z nl "0.prems"(2,5)
    by (subst do_erase_shift_loop.simps) (simp add: ge_2INC)
  have "ainv n hm fp ((DF bs)(b := 0)) ((VI bs)(b := 0)) S"
    using "0.prems" z by (intro erase_end) simp_all
  then have "ainv n hm fp (DF (bs[b := empty_bucket])) (VI (bs[b := empty_bucket])) S"
    using "0.prems"(2,5) by (simp add: DF_update VI_update empty_bucket_def)
  then show ?case using e "0.prems"(2,5) by simp
next
  case (Suc m)
  let ?nb = "nextb n b"
  have n0: "0 < n" using Suc.prems(3) by simp
  have nl: "?nb < n" using n0 by (rule nextb_less)
  show ?case
  proof (cases "512 \<le> DF bs ?nb")
    case False
    have e: "do_erase_shift_loop bs b ?nb = Some (bs, b)"
      using False nl Suc.prems(2,5)
      by (subst do_erase_shift_loop.simps) (simp add: ge_2INC)
    have "ainv n hm fp ((DF bs)(b := 0)) ((VI bs)(b := 0)) S"
      using Suc.prems False by (intro erase_end) simp_all
    then have "ainv n hm fp (DF (bs[b := empty_bucket])) (VI (bs[b := empty_bucket])) S"
      using Suc.prems(2,5) by (simp add: DF_update VI_update empty_bucket_def)
    then show ?thesis using e Suc.prems(2,5) by simp
  next
    case True
    let ?mv = "\<lparr>dist_and_fingerprint = dist_and_fingerprint (bs ! ?nb) - BUCKET_DIST_INC,
                 value_idx = value_idx (bs ! ?nb)\<rparr>"
    let ?bs1 = "bs[b := ?mv]"
    have nb: "?nb \<noteq> b" using Suc.prems(3,5) by (intro nextb_neq) simp_all
    have mD: "unat (dist_and_fingerprint ?mv) = DF bs ?nb - 256"
      using True by (simp add: unat_sub_INC DF_def)
    have df1: "DF ?bs1 = (DF bs)(b := DF bs ?nb - 256)"
      using Suc.prems(2,5) mD by (simp add: DF_update)
    have vi1: "VI ?bs1 = (VI bs)(b := VI bs ?nb)"
      using Suc.prems(2,5) by (simp add: VI_update VI_def)
    have h1: "hole_inv n hm fp (DF ?bs1) (VI ?bs1) ?nb S"
      unfolding df1 vi1
      using Suc.prems(4,5) True Suc.prems(3,7,8) by (rule erase_step)
    have e: "pos n ?nb (Suc m) \<noteq> b" using Suc.prems(1,6) by auto
    have "\<exists>bs1 b1. do_erase_shift_loop ?bs1 ?nb (nextb n ?nb) = Some (bs1, b1) \<and>
           length bs1 = n \<and> b1 < n \<and>
           ainv n hm fp (DF (bs1[b1 := empty_bucket])) (VI (bs1[b1 := empty_bucket])) S"
    proof (rule Suc.IH)
      show "DF ?bs1 (pos n (nextb n ?nb) m) = 0"
        using Suc.prems(1) e by (simp add: df1 pos_Suc_nextb)
      show "length ?bs1 = n" using Suc.prems(2) by simp
      show "DF ?bs1 ?nb \<noteq> 0" using True nb by (simp add: df1)
    qed (use Suc.prems h1 nl in simp_all)
    moreover have "do_erase_shift_loop bs b ?nb = do_erase_shift_loop ?bs1 ?nb (nextb n ?nb)"
      using True nl Suc.prems(2,5)
      by (subst do_erase_shift_loop.simps) (simp add: ge_2INC bucket_next_nextb)
    ultimately show ?thesis by simp
  qed
qed

lemma ne_VI: "w \<noteq> value_idx (bs ! b) \<longleftrightarrow> unat w \<noteq> VI bs b"
  by (simp add: VI_def word_unat_eq_iff)

lemma pos_inj: "h0 < n \<Longrightarrow> j < n \<Longrightarrow> j' < n \<Longrightarrow> pos n h0 j = pos n h0 j' \<Longrightarrow> j = j'"
proof -
  assume a: "h0 < n" "j < n" "j' < n" and e: "pos n h0 j = pos n h0 j'"
  have "j = dist_of n h0 (pos n h0 j)" using a(1,2) by (simp only: dist_of_pos)
  also have "\<dots> = dist_of n h0 (pos n h0 j')" by (simp only: e)
  also have "\<dots> = j'" using a(1,3) by (simp only: dist_of_pos)
  finally show ?thesis .
qed

lemma walk_loop:
  assumes inv: "ainv n hm fp (DF bs) (VI bs) S" and len: "length bs = n"
    and v: "v \<in> S" and w: "unat w = v" and hm: "\<forall>u. hm u < n"
    and i: "i < n" "DF bs i \<noteq> 0" "VI bs i = v"
    and j: "j \<le> dist_of n (hm v) i"
  shows "find_value_idx_loop bs w (pos n (hm v) j) = Some i"
  using j
proof (induction "dist_of n (hm v) i - j" arbitrary: j)
  case 0
  then have "pos n (hm v) j = i" using pos_dist_of [of "hm v" n i] hm i(1) by simp
  then show ?case using i len w
    by (subst find_value_idx_loop.simps) (simp add: ne_VI)
next
  case (Suc m)
  let ?h = "hm v" and ?js = "dist_of n (hm v) i"
  have n0: "0 < n" using i(1) by simp
  have jl: "j < ?js" using Suc.hyps(2) by simp
  have js: "?js < n" using n0 by (rule dist_of_less)
  have h: "?h < n" using hm by simp
  have pl: "pos n ?h j < n" using n0 by (rule pos_less)
  have pi: "pos n ?h ?js = i" using h i(1) by (rule pos_dist_of)
  have hv: "hm (VI bs i) < n" using hm by simp
  have jle: "j \<le> dist_of n (hm (VI bs i)) i" using jl i(3) by simp
  have "256 * (j + 1) + fp (VI bs i) \<le> DF bs (pos n (hm (VI bs i)) j)"
    using inv i(1) i(2) hv jle by (rule ainv_reach)
  then have ne: "DF bs (pos n ?h j) \<noteq> 0" using i(3) by simp
  have "pos n ?h j \<noteq> i"
  proof
    assume "pos n ?h j = i"
    then have pe: "pos n ?h j = pos n ?h ?js" using pi by simp
    have jn: "j < n" using jl js by simp
    have "j = ?js" using h jn js pe by (rule pos_inj)
    then show False using jl by simp
  qed
  then have "VI bs (pos n ?h j) \<noteq> v"
    using inv pl i ne unfolding ainv_def inj_slots_def by blast
  then have "find_value_idx_loop bs w (pos n ?h j) = find_value_idx_loop bs w (pos n ?h (Suc j))"
    using pl len w
    by (subst find_value_idx_loop.simps) (simp add: ne_VI bucket_next_nextb nextb_pos)
  moreover have "find_value_idx_loop bs w (pos n ?h (Suc j)) = Some i"
    using Suc.hyps(2) jl by (intro Suc.hyps(1)) simp_all
  ultimately show ?case by simp
qed

lemma ainv_repoint:
  assumes inv: "ainv n hm fp df vi S" and i: "i < n" "df i \<noteq> 0" "vi i = L"
    and r: "r \<notin> S" and h: "hm' r = hm L" "fp' r = fp L"
    and same: "\<forall>v\<in>S - {L}. hm' v = hm v \<and> fp' v = fp v"
  shows "ainv n hm' fp' df (vi(i := r)) (insert r (S - {L}))"
proof -
  have wf: "wf_slots n hm fp df vi S" and inj: "inj_slots n df vi"
    and surj: "surj_slots n df vi S" and ordd: "\<forall>i<n. ordered_at n df i"
    using inv by (simp_all add: ainv_def)
  have other: "\<And>j. j < n \<Longrightarrow> j \<noteq> i \<Longrightarrow> df j \<noteq> 0 \<Longrightarrow> vi j \<in> S - {L}"
    using inj wf i unfolding inj_slots_def wf_slots_def by blast
  have 1: "wf_slots n hm' fp' df (vi(i := r)) (insert r (S - {L}))"
    unfolding wf_slots_def
  proof (intro allI impI)
    fix j assume j: "j < n" "df j \<noteq> 0"
    show "(vi(i := r)) j \<in> insert r (S - {L}) \<and>
      df j = 256 * (dist_of n (hm' ((vi(i := r)) j)) j + 1) + fp' ((vi(i := r)) j)"
    proof (cases "j = i")
      case True
      have "df i = 256 * (dist_of n (hm L) i + 1) + fp L"
        using wf i unfolding wf_slots_def by blast
      then show ?thesis using True h by simp
    next
      case False
      have a: "vi j \<in> S - {L}" using other [OF j(1) False j(2)] .
      have "df j = 256 * (dist_of n (hm (vi j)) j + 1) + fp (vi j)"
        using wf j unfolding wf_slots_def by blast
      then show ?thesis using False a same by simp
    qed
  qed
  have 2: "inj_slots n df (vi(i := r))"
    unfolding inj_slots_def
  proof (intro allI impI)
    fix j k assume j: "j < n" and k: "k < n" and dj: "df j \<noteq> 0" and dk: "df k \<noteq> 0"
      and eq: "(vi(i := r)) j = (vi(i := r)) k"
    show "j = k"
    proof (cases "j = i")
      case ji: True
      show ?thesis
      proof (cases "k = i")
        case True
        then show ?thesis using ji by simp
      next
        case False
        then have "vi k = r" using eq ji by simp
        then show ?thesis using other [OF k False dk] r by simp
      qed
    next
      case ji: False
      show ?thesis
      proof (cases "k = i")
        case True
        then have "vi j = r" using eq ji by simp
        then show ?thesis using other [OF j ji dj] r by simp
      next
        case False
        then have "vi j = vi k" using eq ji by simp
        then show ?thesis using inj j k dj dk unfolding inj_slots_def by blast
      qed
    qed
  qed
  have 3: "surj_slots n df (vi(i := r)) (insert r (S - {L}))"
    unfolding surj_slots_def
  proof
    fix v assume "v \<in> insert r (S - {L})"
    then consider "v = r" | "v \<in> S" "v \<noteq> L" by auto
    then show "\<exists>j<n. df j \<noteq> 0 \<and> (vi(i := r)) j = v"
    proof cases
      case 1
      then show ?thesis using i by (intro exI [of _ i]) simp
    next
      case 2
      then obtain j where j: "j < n" "df j \<noteq> 0" "vi j = v"
        using surj unfolding surj_slots_def by blast
      then have "j \<noteq> i" using 2 i by auto
      then show ?thesis using j by (intro exI [of _ j]) simp
    qed
  qed
  show ?thesis using 1 2 3 ordd by (simp add: ainv_def)
qed

lemma remove_at_last: "xs \<noteq> [] \<Longrightarrow> remove_at xs (length xs - 1) = butlast xs"
proof -
  assume ne: "xs \<noteq> []"
  have "xs[length xs - 1 := xs ! (length xs - 1)] = xs" by (rule list_update_id)
  then show ?thesis using ne by (simp add: remove_at_def last_conv_nth)
qed

lemma length_remove_at: "length (remove_at xs i) = length xs - 1"
  by (simp add: remove_at_def)

lemma nth_remove_at:
  assumes "j < length xs - 1"
  shows "remove_at xs i ! j = (if j = i then xs ! (length xs - 1) else xs ! j)"
proof -
  have ne: "xs \<noteq> []" using assms by auto
  have "remove_at xs i ! j = (xs[i := last xs]) ! j"
    using assms by (simp add: remove_at_def nth_butlast)
  also have "\<dots> = (if j = i then xs ! (length xs - 1) else xs ! j)"
    using assms ne by (simp add: last_conv_nth)
  finally show ?thesis .
qed

lemma unat_size_minus_1:
  assumes "0 < N" "N < 2 ^ 32"
  shows "unat ((word_of_nat N :: 64 word) - 1) = N - 1"
proof -
  obtain M where M: "N = M + 1" using assms(1) by (metis Suc_eq_plus1 Suc_pred')
  have "(word_of_nat (M + 1) :: 64 word) - 1 = word_of_nat M" by simp
  moreover have "M < 2 ^ 64" using assms(2) M by simp
  ultimately show ?thesis using M by (simp add: unat_of_nat)
qed

lemma unat_ucast_32_64: "unat (ucast (w :: 32 word) :: 64 word) = unat w"
proof -
  have "unat w < 2 ^ 32" using unsigned_less [of w, where 'a = nat] by simp
  then have "unat w < 2 ^ 64" by simp
  then show ?thesis by (simp add: unsigned_ucast_eq take_bit_nat_eq_self)
qed

lemma back_cmp:
  assumes "0 < N" "N < 2 ^ 32"
  shows "(ucast (w :: 32 word) :: 64 word) \<noteq> word_of_nat N - 1 \<longleftrightarrow> unat w \<noteq> N - 1"
proof -
  have "(ucast w :: 64 word) = word_of_nat N - 1 \<longleftrightarrow>
        unat (ucast w :: 64 word) = unat ((word_of_nat N :: 64 word) - 1)"
    by (rule word_unat_eq_iff)
  then show ?thesis using assms by (simp only: unat_ucast_32_64 unat_size_minus_1)
qed

lemma tinv_shrink:
  assumes t: "tinv hf s kf bs0 S0" and len: "length bs' = length bs0"
    and N: "0 < N" "S0 = {..<N}"
    and inj: "inj_on kf' {..<N - 1}"
    and inv: "ainv (length bs') (\<lambda>v. home s (hf (kf' v))) (\<lambda>v. fp_of (hf (kf' v)))
                (DF bs') (VI bs') {..<N - 1}"
  shows "tinv hf s kf' bs' {..<N - 1}"
proof -
  note td = tinvD [OF t]
  have "card {..<N - 1} < length bs'" using td(5) N len by simp
  then show ?thesis using td(1,2,3) len inj inv unfolding tinv_def by simp
qed

lemma do_erase_spec:
  assumes v: "valid H st" and bs: "m_buckets st = Some bs" and b: "b < length bs"
    and ne: "DF bs b \<noteq> 0"
  shows "\<exists>bs'. do_erase H st b =
             Some (st\<lparr>m_values := remove_at (m_values st) (VI bs b), m_buckets := Some bs'\<rparr>) \<and>
           valid H (st\<lparr>m_values := remove_at (m_values st) (VI bs b), m_buckets := Some bs'\<rparr>) \<and>
           VI bs b < length (m_values st)"
proof -
  let ?vals = "m_values st" and ?N = "length (m_values st)" and ?n = "length bs"
  let ?s = "unat (m_shifts st)" and ?hf = "mixed_hash H"
  let ?hm = "\<lambda>v. home ?s (?hf (keyf ?vals v))" and ?fp = "\<lambda>v. fp_of (?hf (keyf ?vals v))"
  let ?r = "VI bs b" and ?S = "{..<length (m_values st)}"
  let ?vals' = "remove_at ?vals ?r"
  let ?hm' = "\<lambda>v. home ?s (?hf (keyf ?vals' v))" and ?fp' = "\<lambda>v. fp_of (?hf (keyf ?vals' v))"
  note t = validD_Some [OF v bs]
  note td = tinvD [OF t(2)]
  have inv: "ainv ?n ?hm ?fp (DF bs) (VI bs) ?S" by (rule td(7))
  have gb: "8 \<le> ?n" "?n \<le> 2 ^ 23" using geom_bounds [OF td(1) td(2) td(3)] .
  have n3: "3 \<le> ?n" using gb(1) by simp
  have n0: "0 < ?n" using gb(1) by auto
  have rS: "?r \<in> ?S" using inv b ne unfolding ainv_def wf_slots_def by blast
  then have rN: "?r < ?N" by simp
  have N0: "0 < ?N" using rN by auto
  have Nn: "?N < ?n" using td(5) by simp
  have N32: "?N < 2 ^ 32" using Nn gb(2) by simp
  have vne: "?vals \<noteq> []" using N0 by auto
  have s64: "?s \<le> 64" using td(2) by simp
  have hb: "\<And>h. home ?s h < ?n" using home_less [OF s64] td(3) by simp
  have hmb: "\<forall>u. ?hm u < ?n" using hb by simp
  have fpb: "\<forall>u. ?fp u < 256" by (simp add: fp_less)
  have hole: "hole_inv ?n ?hm ?fp (DF bs) (VI bs) b (?S - {?r})"
    using inv b ne n3 by (rule erase_init)
  have nbl: "nextb ?n b < ?n" using n0 by (rule nextb_less)
  obtain m where m: "DF bs (pos ?n (nextb ?n b) m) = 0"
    using tinv_empty_from [OF t(2) nbl] by blast
  have "\<exists>bs1 b1. do_erase_shift_loop bs b (nextb ?n b) = Some (bs1, b1) \<and>
           length bs1 = ?n \<and> b1 < ?n \<and>
           ainv ?n ?hm ?fp (DF (bs1[b1 := empty_bucket])) (VI (bs1[b1 := empty_bucket])) (?S - {?r})"
    using m refl n3 hole b ne hmb fpb by (rule shift_loop)
  then obtain bs1 b1 where sl: "do_erase_shift_loop bs b (nextb ?n b) = Some (bs1, b1)"
    and l1: "length bs1 = ?n" and b1: "b1 < ?n"
    and inv2: "ainv ?n ?hm ?fp (DF (bs1[b1 := empty_bucket])) (VI (bs1[b1 := empty_bucket])) (?S - {?r})"
    by blast
  let ?bs2 = "bs1[b1 := empty_bucket]"
  have l2: "length ?bs2 = ?n" using l1 by simp
  have cmp: "(ucast (value_idx (bs ! b)) :: 64 word) \<noteq> word_of_nat ?N - 1 \<longleftrightarrow> ?r \<noteq> ?N - 1"
    using back_cmp [OF N0 N32, of "value_idx (bs ! b)"] by (simp add: VI_def)
  have ur: "unat (value_idx (bs ! b)) = ?r" by (simp add: VI_def)
  have lenv: "length ?vals' = ?N - 1" by (rule length_remove_at)
  have mlf: "0 \<le> m_max_load_factor st" "m_max_load_factor st < 1" using t(3,4) .
  have fin: "\<And>bs'. length bs' = ?n \<Longrightarrow>
      ainv ?n ?hm' ?fp' (DF bs') (VI bs') {..<?N - 1} \<Longrightarrow> inj_on (keyf ?vals') {..<?N - 1} \<Longrightarrow>
      valid H (st\<lparr>m_values := ?vals', m_buckets := Some bs'\<rparr>)"
  proof -
    fix bs' assume l': "length bs' = ?n"
      and a': "ainv ?n ?hm' ?fp' (DF bs') (VI bs') {..<?N - 1}"
      and i': "inj_on (keyf ?vals') {..<?N - 1}"
    have a'': "ainv (length bs') ?hm' ?fp' (DF bs') (VI bs') {..<?N - 1}"
      using a' by (simp only: l')
    have "tinv ?hf ?s (keyf ?vals') bs' {..<?N - 1}"
      using t(2) l' N0 refl i' a'' by (rule tinv_shrink)
    then show "valid H (st\<lparr>m_values := ?vals', m_buckets := Some bs'\<rparr>)"
      using mlf t(1) l' by (simp add: valid_def lenv)
  qed
  show ?thesis
  proof (cases "?r = ?N - 1")
    case True
    have rv: "?vals' = butlast ?vals" using remove_at_last [OF vne] True by simp
    have "do_erase H st b = Some (st\<lparr>m_values := butlast ?vals, m_buckets := Some ?bs2\<rparr>)"
      using bs b sl cmp True vne
      by (simp add: do_erase_def bucket_next_nextb)
    then have e: "do_erase H st b = Some (st\<lparr>m_values := ?vals', m_buckets := Some ?bs2\<rparr>)"
      by (simp only: rv)
    have S': "?S - {?r} = {..<?N - 1}" using True N0 by auto
    have kk: "\<And>u. u < ?N - 1 \<Longrightarrow> keyf ?vals' u = keyf ?vals u"
      using True by (simp add: keyf_def nth_remove_at)
    have "inj_on (keyf ?vals) {..<?N - 1}"
      using td(6) by (rule inj_on_subset) auto
    then have i': "inj_on (keyf ?vals') {..<?N - 1}"
      using kk by (simp add: inj_on_def)
    have "ainv ?n ?hm ?fp (DF ?bs2) (VI ?bs2) {..<?N - 1}" using inv2 by (simp only: S')
    then have "ainv ?n ?hm' ?fp' (DF ?bs2) (VI ?bs2) {..<?N - 1}"
      using kk unfolding ainv_def wf_slots_def surj_slots_def by simp
    then have "valid H (st\<lparr>m_values := ?vals', m_buckets := Some ?bs2\<rparr>)"
      using l2 i' by (intro fin)
    then show ?thesis using e rN by blast
  next
    case False
    let ?L = "?N - 1"
    let ?w = "word_of_nat ?L :: 32 word"
    have rL: "?r < ?L" using False rN by simp
    have uw: "unat ?w = ?L" using N32 by (simp add: unat_of_nat)
    have LS: "?L \<in> ?S - {?r}" using False N0 by simp
    obtain i where i: "i < ?n" "DF ?bs2 i \<noteq> 0" "VI ?bs2 i = ?L"
      using inv2 LS unfolding ainv_def surj_slots_def by blast
    have "find_value_idx_loop ?bs2 ?w (pos ?n (?hm ?L) 0) = Some i"
      using inv2 l2 LS uw hmb i by (rule walk_loop) simp
    then have fl: "find_value_idx_loop ?bs2 ?w (?hm ?L) = Some i"
      using hb by (simp add: pos_0')
    let ?c = "(?bs2 ! i)\<lparr>value_idx := value_idx (bs ! b)\<rparr>"
    let ?bs3 = "?bs2[i := ?c]"
    have kr: "get_key ((?vals[?r := last ?vals]) ! ?r) = keyf ?vals ?L"
      using rN vne by (simp add: get_key_def keyf_def last_conv_nth)
    have bh: "bucket_from_hash st (?hf (keyf ?vals ?L)) = Some (?hm ?L)"
      using td(2) by (rule bucket_from_hash_Some)
    have kr': "get_key (last ?vals) = keyf ?vals ?L"
      using vne by (simp add: get_key_def keyf_def last_conv_nth)
    obtain M where M: "?N = Suc M" using N0 by (cases ?N) simp_all
    have we: "(word_of_nat ?N :: 32 word) - 1 = ?w" unfolding M by simp
    have fl': "find_value_idx_loop ?bs2 (word_of_nat ?N - 1) (?hm ?L) = Some i"
      using fl by (simp only: we)
    have "do_erase H st b =
        Some (st\<lparr>m_values := butlast (?vals[?r := last ?vals]), m_buckets := Some ?bs3\<rparr>)"
      using bs b sl cmp False rN bh fl'
      by (simp add: do_erase_def bucket_next_nextb ur kr' Let_def)
    then have e: "do_erase H st b = Some (st\<lparr>m_values := ?vals', m_buckets := Some ?bs3\<rparr>)"
      by (simp only: remove_at_def)
    have l3: "length ?bs3 = ?n" using l2 by simp
    have il: "i < length ?bs2" using i(1) l2 by simp
    have "DF ?bs3 = (DF ?bs2)(i := DF ?bs2 i)"
      unfolding DF_update [OF il] by (simp add: DF_def)
    then have df3: "DF ?bs3 = DF ?bs2" by simp
    have vi3: "VI ?bs3 = (VI ?bs2)(i := ?r)"
      unfolding VI_update [OF il] by (simp add: VI_def)
    have kk: "\<And>u. u < ?L \<Longrightarrow> keyf ?vals' u = (if u = ?r then keyf ?vals ?L else keyf ?vals u)"
      by (simp add: keyf_def nth_remove_at)
    have rn: "?r \<notin> ?S - {?r}" by simp
    have "ainv ?n ?hm' ?fp' (DF ?bs2) ((VI ?bs2)(i := ?r)) (insert ?r (?S - {?r} - {?L}))"
      using inv2 i rn
    proof (rule ainv_repoint)
      show "?hm' ?r = ?hm ?L" using rL by (simp add: kk)
      show "?fp' ?r = ?fp ?L" using rL by (simp add: kk)
      show "\<forall>u\<in>?S - {?r} - {?L}. ?hm' u = ?hm u \<and> ?fp' u = ?fp u"
      proof
        fix u assume "u \<in> ?S - {?r} - {?L}"
        then have "u < ?L" "u \<noteq> ?r" by auto
        then show "?hm' u = ?hm u \<and> ?fp' u = ?fp u" by (simp add: kk)
      qed
    qed
    moreover have "insert ?r (?S - {?r} - {?L}) = {..<?L}" using rL N0 by auto
    ultimately have a3: "ainv ?n ?hm' ?fp' (DF ?bs3) (VI ?bs3) {..<?L}"
      by (simp only: df3 vi3)
    have i': "inj_on (keyf ?vals') {..<?L}"
    proof (rule inj_onI)
      fix x y assume x: "x \<in> {..<?L}" and y: "y \<in> {..<?L}"
        and eq: "keyf ?vals' x = keyf ?vals' y"
      let ?g = "\<lambda>u. if u = ?r then ?L else u"
      have xl: "x < ?L" and yl: "y < ?L" using x y by simp_all
      have "keyf ?vals (?g x) = keyf ?vals (?g y)"
        using eq kk [OF xl] kk [OF yl] by (simp split: if_splits)
      moreover have "?g x \<in> ?S" "?g y \<in> ?S" using xl yl N0 by auto
      ultimately have "?g x = ?g y" using td(6) unfolding inj_on_def by blast
      then show "x = y" using xl yl by (simp split: if_splits)
    qed
    have "valid H (st\<lparr>m_values := ?vals', m_buckets := Some ?bs3\<rparr>)"
      using l3 a3 i' by (rule fin)
    then show ?thesis using e rN by blast
  qed
qed

lemma prevb_pos_Suc: "h0 < n \<Longrightarrow> prevb n (pos n h0 (Suc j)) = pos n h0 j"
proof -
  assume h: "h0 < n"
  then have n0: "0 < n" by simp
  have "prevb n (nextb n (pos n h0 j)) = pos n h0 j"
    using pos_less [OF n0] by (rule prevb_nextb)
  then show ?thesis by (simp only: nextb_pos)
qed

lemma erase_key_loop_correct:
  assumes "DF bs (pos n h0 je) = 0" and "j \<le> je"
    and "length bs = n" and "h0 < n" and "n \<le> 2 ^ 23" and "je \<le> n"
    and "unat d = 256 * (j + 1) + f" and "f < 256"
    and "\<forall>i<n. DF bs i \<noteq> 0 \<longrightarrow> VI bs i < length vals"
    and "\<forall>i<n. ordered_at n (DF bs) i"
    and "\<forall>j'<j. \<not> (DF bs (pos n h0 j') = 256 * (j' + 1) + f \<and> k = key_at vals bs (pos n h0 j'))"
    and "DF bs (pos n h0 j) \<le> 256 * (j + 1) + f"
  shows "\<exists>d' J. do_erase_key_loop vals k bs d (pos n h0 j) = Some (d', pos n h0 J) \<and>
           ((unat d' = DF bs (pos n h0 J) \<and> DF bs (pos n h0 J) \<noteq> 0 \<and>
             key_at vals bs (pos n h0 J) = k) \<or>
            (unat d' \<noteq> DF bs (pos n h0 J) \<and>
             (\<forall>j'<J. \<not> (DF bs (pos n h0 j') = 256 * (j' + 1) + f \<and>
                          k = key_at vals bs (pos n h0 j'))) \<and>
             DF bs (pos n h0 J) < 256 * (J + 1) + f))"
  using assms
proof (induction "je - j" arbitrary: j d)
  case 0
  then have j: "j = je" by simp
  have n0: "0 < n" using "0.prems"(4) by simp
  have pl: "pos n h0 j < length bs" using "0.prems"(3) pos_less [OF n0] by simp
  have z: "DF bs (pos n h0 j) = 0" using "0.prems"(1) j by simp
  have "do_erase_key_loop vals k bs d (pos n h0 j) = Some (d, pos n h0 j)"
    using pl z "0.prems"(7) by (subst do_erase_key_loop.simps) (simp add: eq_DF)
  moreover have "unat d \<noteq> DF bs (pos n h0 j)" using z "0.prems"(7) by simp
  moreover have "DF bs (pos n h0 j) < 256 * (j + 1) + f" using z by simp
  ultimately show ?case using "0.prems"(11) by blast
next
  case (Suc m)
  have n0: "0 < n" using Suc.prems(4) by simp
  have pn: "pos n h0 j < n" using n0 by (rule pos_less)
  have pl: "pos n h0 j < length bs" using Suc.prems(3) pn by simp
  show ?case
  proof (cases "unat d = DF bs (pos n h0 j)")
    case False
    have "do_erase_key_loop vals k bs d (pos n h0 j) = Some (d, pos n h0 j)"
      using pl False by (subst do_erase_key_loop.simps) (simp add: eq_DF)
    moreover have "DF bs (pos n h0 j) < 256 * (j + 1) + f"
      using False Suc.prems(7,12) by simp
    ultimately show ?thesis using False Suc.prems(11) by blast
  next
    case True
    have ne: "DF bs (pos n h0 j) \<noteq> 0" using True Suc.prems(7) by simp
    have vl: "VI bs (pos n h0 j) < length vals" using Suc.prems(9) pn ne by blast
    show ?thesis
    proof (cases "k = key_at vals bs (pos n h0 j)")
      case m: True
      have "do_erase_key_loop vals k bs d (pos n h0 j) = Some (d, pos n h0 j)"
        using pl True vl m
        by (subst do_erase_key_loop.simps) (simp add: eq_DF VI_def key_at_def get_key_def)
      then show ?thesis using True ne m by blast
    next
      case nm: False
      have jl: "j < je" using Suc.hyps(2) by simp
      have "unat d + 256 < 2 ^ 32" using Suc.prems(5,6,7,8) jl by simp
      then have d1: "unat (d + BUCKET_DIST_INC) = 256 * (Suc j + 1) + f"
        using Suc.prems(7) by (simp add: unat_add_INC)
      have pS: "pos n h0 (Suc j) < n" using n0 by (rule pos_less)
      have le': "DF bs (pos n h0 (Suc j)) \<le> 256 * (Suc j + 1) + f"
      proof (cases "512 \<le> DF bs (pos n h0 (Suc j))")
        case True
        have "ordered_at n (DF bs) (pos n h0 (Suc j))" using Suc.prems(10) pS by blast
        then have "DF bs (pos n h0 (Suc j)) \<le> DF bs (prevb n (pos n h0 (Suc j))) + 256"
          using True by (simp add: ordered_at_def)
        then have "DF bs (pos n h0 (Suc j)) \<le> DF bs (pos n h0 j) + 256"
          by (simp only: prevb_pos_Suc [OF Suc.prems(4)])
        then show ?thesis using Suc.prems(12) by simp
      next
        case False
        then show ?thesis by simp
      qed
      have "\<exists>d' J. do_erase_key_loop vals k bs (d + BUCKET_DIST_INC) (pos n h0 (Suc j))
                 = Some (d', pos n h0 J) \<and>
           ((unat d' = DF bs (pos n h0 J) \<and> DF bs (pos n h0 J) \<noteq> 0 \<and>
             key_at vals bs (pos n h0 J) = k) \<or>
            (unat d' \<noteq> DF bs (pos n h0 J) \<and>
             (\<forall>j'<J. \<not> (DF bs (pos n h0 j') = 256 * (j' + 1) + f \<and>
                          k = key_at vals bs (pos n h0 j'))) \<and>
             DF bs (pos n h0 J) < 256 * (J + 1) + f))"
      proof (rule Suc.hyps(1))
        show "m = je - Suc j" using Suc.hyps(2) by simp
        show "Suc j \<le> je" using jl by simp
        show "\<forall>j'<Suc j. \<not> (DF bs (pos n h0 j') = 256 * (j' + 1) + f \<and>
                 k = key_at vals bs (pos n h0 j'))"
          using Suc.prems(11) nm by (auto simp: less_Suc_eq)
        show "unat (d + BUCKET_DIST_INC) = 256 * (Suc j + 1) + f" by (rule d1)
        show "DF bs (pos n h0 (Suc j)) \<le> 256 * (Suc j + 1) + f" by (rule le')
      qed (use Suc.prems in simp_all)
      moreover have "do_erase_key_loop vals k bs d (pos n h0 j) =
          do_erase_key_loop vals k bs (d + BUCKET_DIST_INC) (pos n h0 (Suc j))"
        using True pl vl nm Suc.prems(3)
        by (subst do_erase_key_loop.simps)
           (simp add: eq_DF VI_def key_at_def get_key_def bucket_next_nextb nextb_pos)
      ultimately show ?thesis by simp
    qed
  qed
qed

lemma do_erase_key_spec:
  assumes v: "valid H st" and bs: "m_buckets st = Some bs"
  shows "\<exists>st' r. do_erase_key H st k = Some (st', r) \<and> valid H st' \<and> m_buckets st' \<noteq> None \<and>
           m_shifts st' = m_shifts st \<and>
           (if k \<in> fst ` set (m_values st)
            then r = 1 \<and> (\<exists>i<length (m_values st). fst (m_values st ! i) = k \<and>
                            m_values st' = remove_at (m_values st) i)
            else r = 0 \<and> st' = st)"
proof -
  let ?vals = "m_values st" and ?N = "length (m_values st)" and ?n = "length bs"
  let ?s = "unat (m_shifts st)" and ?hf = "mixed_hash H"
  let ?hm = "\<lambda>v. home ?s (?hf (keyf ?vals v))" and ?fp = "\<lambda>v. fp_of (?hf (keyf ?vals v))"
  let ?h = "home ?s (?hf k)" and ?f = "fp_of (?hf k)"
  note t = validD_Some [OF v bs]
  note td = tinvD [OF t(2)]
  have inv: "ainv ?n ?hm ?fp (DF bs) (VI bs) {..<?N}" by (rule td(7))
  have gb: "8 \<le> ?n" "?n \<le> 2 ^ 23" using geom_bounds [OF td(1) td(2) td(3)] .
  have n0: "0 < ?n" using gb(1) by auto
  have s64: "?s \<le> 64" using td(2) by simp
  have hb: "\<And>h. home ?s h < ?n" using home_less [OF s64] td(3) by simp
  have hmb: "\<forall>u. ?hm u < ?n" using hb by simp
  have wf: "wf_slots ?n ?hm ?fp (DF bs) (VI bs) {..<?N}" using inv by (simp add: ainv_def)
  have ordd: "\<forall>i<?n. ordered_at ?n (DF bs) i" using inv by (simp add: ainv_def)
  have rng: "\<forall>i<?n. DF bs i \<noteq> 0 \<longrightarrow> VI bs i < length ?vals"
    using wf unfolding wf_slots_def by auto
  obtain d0 J where r: "next_while_less_loop bs (dist_and_fingerprint_from_hash (?hf k)) ?h
              = Some (d0, pos ?n ?h J)"
    "J < ?n" "unat d0 = 256 * (J + 1) + ?f"
    "\<forall>j'<J. 256 * (j' + 1) + ?f < DF bs (pos ?n ?h j')"
    "DF bs (pos ?n ?h J) \<le> 256 * (J + 1) + ?f"
    using nwl_spec [OF t(2), of "?hf k"] by blast
  have nw: "next_while_less H st k = Some (d0, pos ?n ?h J)"
    using r(1) bs td(2) by (simp add: next_while_less_def Let_def bucket_from_hash_Some)
  obtain je where je: "je < ?n" "DF bs (pos ?n ?h je) = 0"
    using tinv_empty_from [OF t(2) hb] by blast
  have Jje: "J \<le> je"
  proof (rule ccontr)
    assume "\<not> J \<le> je"
    then have "256 * (je + 1) + ?f < DF bs (pos ?n ?h je)" using r(4) by simp
    then show False using je(2) by simp
  qed
  have pre: "\<forall>j'<J. \<not> (DF bs (pos ?n ?h j') = 256 * (j' + 1) + ?f \<and>
                 k = key_at ?vals bs (pos ?n ?h j'))"
    using r(4) by auto
  have jen: "je \<le> ?n" using je(1) by simp
  have "\<exists>d' J'. do_erase_key_loop ?vals k bs d0 (pos ?n ?h J) = Some (d', pos ?n ?h J') \<and>
           ((unat d' = DF bs (pos ?n ?h J') \<and> DF bs (pos ?n ?h J') \<noteq> 0 \<and>
             key_at ?vals bs (pos ?n ?h J') = k) \<or>
            (unat d' \<noteq> DF bs (pos ?n ?h J') \<and>
             (\<forall>j'<J'. \<not> (DF bs (pos ?n ?h j') = 256 * (j' + 1) + ?f \<and>
                          k = key_at ?vals bs (pos ?n ?h j'))) \<and>
             DF bs (pos ?n ?h J') < 256 * (J' + 1) + ?f))"
    using je(2) Jje refl hb gb(2) jen r(3) fp_less rng ordd pre r(5)
    by (rule erase_key_loop_correct)
  then obtain d' J' where l: "do_erase_key_loop ?vals k bs d0 (pos ?n ?h J) = Some (d', pos ?n ?h J')"
    and c: "(unat d' = DF bs (pos ?n ?h J') \<and> DF bs (pos ?n ?h J') \<noteq> 0 \<and>
             key_at ?vals bs (pos ?n ?h J') = k) \<or>
            (unat d' \<noteq> DF bs (pos ?n ?h J') \<and>
             (\<forall>j'<J'. \<not> (DF bs (pos ?n ?h j') = 256 * (j' + 1) + ?f \<and>
                          k = key_at ?vals bs (pos ?n ?h j'))) \<and>
             DF bs (pos ?n ?h J') < 256 * (J' + 1) + ?f)"
    by blast
  let ?b = "pos ?n ?h J'"
  have bl: "?b < ?n" using n0 by (rule pos_less)
  show ?thesis
  proof (cases "unat d' = DF bs ?b")
    case True
    then have f: "DF bs ?b \<noteq> 0" "key_at ?vals bs ?b = k" using c by blast+
    obtain bs' where e: "do_erase H st ?b =
             Some (st\<lparr>m_values := remove_at ?vals (VI bs ?b), m_buckets := Some bs'\<rparr>)"
      "valid H (st\<lparr>m_values := remove_at ?vals (VI bs ?b), m_buckets := Some bs'\<rparr>)"
      "VI bs ?b < ?N"
      using do_erase_spec [OF v bs bl f(1)] by blast
    have kk: "fst (?vals ! VI bs ?b) = k" using f(2) by (simp add: key_at_def)
    have "?vals ! VI bs ?b \<in> set ?vals" using e(3) by (rule nth_mem)
    then have "fst (?vals ! VI bs ?b) \<in> fst ` set ?vals" by (rule imageI)
    then have kin: "k \<in> fst ` set ?vals" by (simp only: kk)
    have "do_erase_key H st k =
        Some (st\<lparr>m_values := remove_at ?vals (VI bs ?b), m_buckets := Some bs'\<rparr>, 1)"
      using nw bs l True e(1) by (simp add: do_erase_key_def eq_DF)
    then show ?thesis using e(2,3) kk kin by auto
  next
    case False
    then have m: "\<forall>j'<J'. \<not> (DF bs (pos ?n ?h j') = 256 * (j' + 1) + ?f \<and>
                          k = key_at ?vals bs (pos ?n ?h j'))"
      "DF bs ?b < 256 * (J' + 1) + ?f" using c by blast+
    have kn: "k \<notin> fst ` set ?vals"
    proof
      assume "k \<in> fst ` set ?vals"
      then obtain u where u: "u < ?N" "fst (?vals ! u) = k"
        by (auto simp: set_conv_nth)
      have m': "\<forall>j'<J'. \<not> (DF bs (pos ?n ?h j') = 256 * (j' + 1) + ?f \<and>
                   (\<lambda>w. k = keyf ?vals w) (VI bs (pos ?n ?h j')))"
        using m(1) by (simp add: key_at_def keyf_def)
      have uS: "u \<in> {..<?N}" using u(1) by simp
      have ku: "keyf ?vals u = k" using u(2) by (simp add: keyf_def)
      show False
      proof (rule miss_absent' [OF inv hmb m' m(2) uS])
        show "?hm u = ?h" by (simp only: ku)
        show "?fp u = ?f" by (simp only: ku)
        show "k = keyf ?vals u" by (simp only: ku)
      qed
    qed
    have "do_erase_key H st k = Some (st, 0)"
      using nw bs l False by (simp add: do_erase_key_def eq_DF)
    then show ?thesis using kn v bs by auto
  qed
qed

lemma set_remove_at:
  assumes d: "distinct xs" and i: "i < length xs"
  shows "set (remove_at xs i) = set xs - {xs ! i}"
proof -
  let ?L = "length xs - 1"
  have len: "length (remove_at xs i) = ?L" by (rule length_remove_at)
  show ?thesis
  proof (intro set_eqI iffI)
    fix x assume "x \<in> set (remove_at xs i)"
    then obtain j where j: "j < ?L" "remove_at xs i ! j = x"
      unfolding in_set_conv_nth len by blast
    have x: "x = (if j = i then xs ! ?L else xs ! j)" using nth_remove_at [OF j(1), of i] j(2) by simp
    show "x \<in> set xs - {xs ! i}"
    proof (cases "j = i")
      case True
      then have "x = xs ! ?L" using x by simp
      moreover have "?L < length xs" using i by simp
      moreover have "?L \<noteq> i" using True j(1) by simp
      ultimately show ?thesis using d i by (simp add: nth_eq_iff_index_eq)
    next
      case False
      then have "x = xs ! j" using x by simp
      moreover have "j < length xs" using j(1) by simp
      ultimately show ?thesis using d i False by (simp add: nth_eq_iff_index_eq)
    qed
  next
    fix x assume "x \<in> set xs - {xs ! i}"
    then have xin: "x \<in> set xs" and xne: "x \<noteq> xs ! i" by simp_all
    from xin obtain j where j0: "j < length xs" "xs ! j = x"
      unfolding in_set_conv_nth by blast
    have "j \<noteq> i" using j0(2) xne by auto
    note j = j0 this
    show "x \<in> set (remove_at xs i)"
    proof (cases "j = ?L")
      case True
      then have il: "i < ?L" using i j(1,3) by simp
      have "remove_at xs i ! i = xs ! ?L" using nth_remove_at [OF il, of i] by simp
      then have "remove_at xs i ! i = x" using True j(2) by simp
      then show ?thesis unfolding in_set_conv_nth len using il by blast
    next
      case False
      then have jl: "j < ?L" using j(1) by simp
      have "remove_at xs i ! j = xs ! j" using nth_remove_at [OF jl, of i] j(3) by simp
      then show ?thesis unfolding in_set_conv_nth len using jl j(2) by blast
    qed
  qed
qed

lemma map_remove_at: "i < length xs \<Longrightarrow> map f (remove_at xs i) = remove_at (map f xs) i"
proof -
  assume i: "i < length xs"
  then have ne: "xs \<noteq> []" by auto
  show ?thesis using ne by (simp add: remove_at_def map_butlast map_update last_map)
qed

lemma keys_remove_at:
  assumes d: "distinct (map fst xs)" and i: "i < length xs"
  shows "fst ` set (remove_at xs i) = fst ` set xs - {fst (xs ! i)}"
proof -
  have il: "i < length (map fst xs)" using i by simp
  have "fst ` set (remove_at xs i) = set (map fst (remove_at xs i))" by simp
  also have "\<dots> = set (remove_at (map fst xs) i)" by (simp only: map_remove_at [OF i])
  also have "\<dots> = set (map fst xs) - {map fst xs ! i}" using d il by (rule set_remove_at)
  also have "\<dots> = fst ` set xs - {fst (xs ! i)}" using i by simp
  finally show ?thesis .
qed

lemma valid_allocated:
  assumes "valid H st" and "m_values st \<noteq> []"
  shows "\<exists>bs. m_buckets st = Some bs"
proof (cases "m_buckets st")
  case None
  then show ?thesis using validD_None(1) [OF assms(1) None] assms(2) by simp
next
  case (Some bs)
  then show ?thesis by simp
qed

lemma erase_it_spec:
  assumes v: "valid H st" and it: "it < length (m_values st)"
  shows "\<exists>bs'. erase_it H st it =
             Some (st\<lparr>m_values := remove_at (m_values st) it, m_buckets := Some bs'\<rparr>, it) \<and>
           valid H (st\<lparr>m_values := remove_at (m_values st) it, m_buckets := Some bs'\<rparr>)"
proof -
  let ?vals = "m_values st" and ?N = "length (m_values st)"
  let ?s = "unat (m_shifts st)" and ?hf = "mixed_hash H"
  let ?hm = "\<lambda>v. home ?s (?hf (keyf ?vals v))" and ?fp = "\<lambda>v. fp_of (?hf (keyf ?vals v))"
  have "?vals \<noteq> []" using it by auto
  then obtain bs where bs: "m_buckets st = Some bs" using valid_allocated [OF v] by blast
  let ?n = "length bs"
  note t = validD_Some [OF v bs]
  note td = tinvD [OF t(2)]
  have inv: "ainv ?n ?hm ?fp (DF bs) (VI bs) {..<?N}" by (rule td(7))
  have gb: "8 \<le> ?n" "?n \<le> 2 ^ 23" using geom_bounds [OF td(1) td(2) td(3)] .
  have s64: "?s \<le> 64" using td(2) by simp
  have hb: "\<And>h. home ?s h < ?n" using home_less [OF s64] td(3) by simp
  have hmb: "\<forall>u. ?hm u < ?n" using hb by simp
  have Nn: "?N < ?n" using td(5) by simp
  have "it < 2 ^ 32" using it Nn gb(2) by simp
  then have uw: "unat (word_of_nat it :: 32 word) = it" by (simp add: unat_of_nat)
  have iS: "it \<in> {..<?N}" using it by simp
  obtain i where i: "i < ?n" "DF bs i \<noteq> 0" "VI bs i = it"
    using inv iS unfolding ainv_def surj_slots_def by blast
  have "find_value_idx_loop bs (word_of_nat it) (pos ?n (?hm it) 0) = Some i"
    using inv refl iS uw hmb i by (rule walk_loop) simp
  then have fl: "find_value_idx_loop bs (word_of_nat it) (?hm it) = Some i"
    using hb by (simp add: pos_0')
  have bh: "bucket_from_hash st (?hf (fst (?vals ! it))) = Some (?hm it)"
    unfolding keyf_def using td(2) by (rule bucket_from_hash_Some)
  obtain bs' where e: "do_erase H st i =
             Some (st\<lparr>m_values := remove_at ?vals (VI bs i), m_buckets := Some bs'\<rparr>)"
      "valid H (st\<lparr>m_values := remove_at ?vals (VI bs i), m_buckets := Some bs'\<rparr>)"
    using do_erase_spec [OF v bs i(1) i(2)] by blast
  have "erase_it H st it = Some (st\<lparr>m_values := remove_at ?vals it, m_buckets := Some bs'\<rparr>, it)"
    using it bs bh fl e(1) i(3) by (simp add: erase_it_def Let_def keyf_def)
  then show ?thesis using e(2) i(3) by auto
qed

lemma fwd_unfold:
  assumes "erase_it H st i = Some (st1, it)"
  shows "erase_range_fwd_loop H st (int i) (int (i + Suc c)) =
         erase_range_fwd_loop H st1 (int (Suc i)) (int (Suc i + c))"
proof -
  have ne: "int i \<noteq> int (i + Suc c)" by simp
  have e1: "int i + 1 = int (Suc i)" by simp
  have e2: "int (i + Suc c) = int (Suc i + c)" by simp
  have "erase_range_fwd_loop H st (int i) (int (i + Suc c)) =
        erase_range_fwd_loop H st1 (int i + 1) (int (i + Suc c))"
    using assms ne by (subst erase_range_fwd_loop.simps) (simp del: of_nat_add of_nat_Suc)
  then show ?thesis by (simp only: e1 e2)
qed

lemma bwd_unfold:
  assumes "erase_it H st (l - 1) = Some (st1, it)" and "Suc c \<le> l"
  shows "erase_range_bwd_loop H st (int l) (int (l - Suc c)) =
         erase_range_bwd_loop H st1 (int (l - 1)) (int (l - 1 - c))"
proof -
  have ne: "int l \<noteq> int (l - Suc c)" using assms(2) by simp
  have e1: "int l - 1 = int (l - 1)" using assms(2) by simp
  have e2: "l - Suc c = l - 1 - c" by simp
  have e3: "0 \<le> int (l - 1)" by simp
  have e4: "nat (int (l - 1)) = l - 1" by simp
  have "erase_range_bwd_loop H st (int l) (int (l - Suc c)) =
        erase_range_bwd_loop H st1 (int l - 1) (int (l - Suc c))"
    using assms(1) ne unfolding e1 [symmetric]
    by (subst erase_range_bwd_loop.simps) (simp only: e1 e3 e4 if_True if_False option.case prod.case simp_thms)
  then show ?thesis by (simp only: e1 e2)
qed

lemma fwd_loop_spec:
  assumes "valid H st" and "i + 2 * c \<le> length (m_values st) + 1"
  shows "\<exists>st'. erase_range_fwd_loop H st (int i) (int (i + c)) = Some st' \<and> valid H st' \<and>
           m_values st' = fwd_list (m_values st) i c \<and>
           m_shifts st' = m_shifts st \<and> m_max_load_factor st' = m_max_load_factor st"
  using assms
proof (induction c arbitrary: st i)
  case 0
  show ?case using "0.prems"(1) by (subst erase_range_fwd_loop.simps) simp
next
  case (Suc c)
  have il: "i < length (m_values st)" using Suc.prems(2) by simp
  obtain bs' where e: "erase_it H st i =
             Some (st\<lparr>m_values := remove_at (m_values st) i, m_buckets := Some bs'\<rparr>, i)"
    "valid H (st\<lparr>m_values := remove_at (m_values st) i, m_buckets := Some bs'\<rparr>)"
    using erase_it_spec [OF Suc.prems(1) il] by blast
  let ?st1 = "st\<lparr>m_values := remove_at (m_values st) i, m_buckets := Some bs'\<rparr>"
  have "Suc i + 2 * c \<le> length (m_values ?st1) + 1"
    using Suc.prems(2) by (simp add: length_remove_at)
  then obtain st' where r: "erase_range_fwd_loop H ?st1 (int (Suc i)) (int (Suc i + c)) = Some st'"
    "valid H st'" "m_values st' = fwd_list (m_values ?st1) (Suc i) c"
    "m_shifts st' = m_shifts ?st1" "m_max_load_factor st' = m_max_load_factor ?st1"
    using Suc.IH [OF e(2)] by blast
  have "erase_range_fwd_loop H st (int i) (int (i + Suc c)) =
        erase_range_fwd_loop H ?st1 (int (Suc i)) (int (Suc i + c))"
    using e(1) by (rule fwd_unfold)
  then show ?case using r by simp
qed

lemma bwd_loop_spec:
  assumes "valid H st" and "c \<le> l" and "l \<le> length (m_values st)"
  shows "\<exists>st'. erase_range_bwd_loop H st (int l) (int (l - c)) = Some st' \<and> valid H st' \<and>
           m_values st' = bwd_list (m_values st) l c \<and>
           m_shifts st' = m_shifts st \<and> m_max_load_factor st' = m_max_load_factor st"
  using assms
proof (induction c arbitrary: st l)
  case 0
  show ?case using "0.prems"(1) by (subst erase_range_bwd_loop.simps) simp
next
  case (Suc c)
  have l0: "0 < l" using Suc.prems(2) by simp
  have il: "l - 1 < length (m_values st)" using Suc.prems(2,3) by simp
  obtain bs' where e: "erase_it H st (l - 1) =
             Some (st\<lparr>m_values := remove_at (m_values st) (l - 1), m_buckets := Some bs'\<rparr>, l - 1)"
    "valid H (st\<lparr>m_values := remove_at (m_values st) (l - 1), m_buckets := Some bs'\<rparr>)"
    using erase_it_spec [OF Suc.prems(1) il] by blast
  let ?st1 = "st\<lparr>m_values := remove_at (m_values st) (l - 1), m_buckets := Some bs'\<rparr>"
  have a: "c \<le> l - 1" using Suc.prems(2) by simp
  have b: "l - 1 \<le> length (m_values ?st1)" using Suc.prems(3) by (simp add: length_remove_at)
  obtain st' where r: "erase_range_bwd_loop H ?st1 (int (l - 1)) (int (l - 1 - c)) = Some st'"
    "valid H st'" "m_values st' = bwd_list (m_values ?st1) (l - 1) c"
    "m_shifts st' = m_shifts ?st1" "m_max_load_factor st' = m_max_load_factor ?st1"
    using Suc.IH [OF e(2) a b] by blast
  have "erase_range_bwd_loop H st (int l) (int (l - Suc c)) =
        erase_range_bwd_loop H ?st1 (int (l - 1)) (int (l - 1 - c))"
    using e(1) Suc.prems(2) by (rule bwd_unfold)
  then show ?case using r by simp
qed

lemma distinct_remove_at:
  assumes d: "distinct xs" and i: "i < length xs"
  shows "distinct (remove_at xs i)"
proof -
  have "xs ! i \<in> set xs" using i by simp
  then have "card (set xs - {xs ! i}) = card (set xs) - 1" by simp
  also have "\<dots> = length xs - 1" using d by (simp add: distinct_card)
  finally have "card (set (remove_at xs i)) = length (remove_at xs i)"
    by (simp only: set_remove_at [OF d i] length_remove_at)
  then show ?thesis by (rule card_distinct)
qed

lemma fwd_list_props:
  assumes "distinct ys" and "i + 2 * c \<le> length ys"
  shows "length (fwd_list ys i c) = length ys - c \<and> distinct (fwd_list ys i c) \<and>
         set (fwd_list ys i c) = set ys - (!) ys ` {i..<i + c} \<and>
         (\<forall>j. i + c \<le> j \<and> j < length ys - c \<longrightarrow> fwd_list ys i c ! j = ys ! j)"
  using assms
proof (induction c arbitrary: ys i)
  case 0
  then show ?case by simp
next
  case (Suc c)
  let ?ys' = "remove_at ys i"
  have il: "i < length ys" using Suc.prems(2) by simp
  have d': "distinct ?ys'" using Suc.prems(1) il by (rule distinct_remove_at)
  have l': "length ?ys' = length ys - 1" by (rule length_remove_at)
  have b': "Suc i + 2 * c \<le> length ?ys'" using Suc.prems(2) l' by simp
  note ih = Suc.IH [OF d' b']
  have nth': "\<And>j. i < j \<Longrightarrow> j < length ys - 1 \<Longrightarrow> ?ys' ! j = ys ! j"
    by (simp add: nth_remove_at)
  have A: "length (fwd_list ys i (Suc c)) = length ys - Suc c" using ih l' by simp
  have B: "distinct (fwd_list ys i (Suc c))" using ih by simp
  have im: "(!) ?ys' ` {Suc i..<Suc i + c} = (!) ys ` {Suc i..<Suc i + c}"
  proof (rule image_cong [OF refl])
    fix j assume "j \<in> {Suc i..<Suc i + c}"
    then have "i < j" "j < length ys - 1" using Suc.prems(2) by auto
    then show "?ys' ! j = ys ! j" by (rule nth')
  qed
  have sp: "{i..<i + Suc c} = insert i {Suc i..<Suc i + c}" by auto
  have "set (fwd_list ys i (Suc c)) = set ?ys' - (!) ?ys' ` {Suc i..<Suc i + c}"
    using ih by simp
  also have "\<dots> = (set ys - {ys ! i}) - (!) ys ` {Suc i..<Suc i + c}"
    by (simp only: set_remove_at [OF Suc.prems(1) il] im)
  also have "\<dots> = set ys - (!) ys ` {i..<i + Suc c}"
    unfolding sp by auto
  finally have C: "set (fwd_list ys i (Suc c)) = set ys - (!) ys ` {i..<i + Suc c}" .
  have D: "\<forall>j. i + Suc c \<le> j \<and> j < length ys - Suc c \<longrightarrow> fwd_list ys i (Suc c) ! j = ys ! j"
  proof (intro allI impI)
    fix j assume j: "i + Suc c \<le> j \<and> j < length ys - Suc c"
    then have "Suc i + c \<le> j \<and> j < length ?ys' - c" using l' by simp
    then have "fwd_list ?ys' (Suc i) c ! j = ?ys' ! j" using ih by blast
    moreover have "i < j" "j < length ys - 1" using j by arith+
    then have "?ys' ! j = ys ! j" by (rule nth')
    ultimately show "fwd_list ys i (Suc c) ! j = ys ! j" by simp
  qed
  show ?case using A B C D by blast
qed

lemma bwd_list_take:
  assumes "l = length zs" and "c \<le> l"
  shows "bwd_list zs l c = take (l - c) zs"
  using assms
proof (induction c arbitrary: zs l)
  case 0
  then show ?case by simp
next
  case (Suc c)
  have ne: "zs \<noteq> []" using Suc.prems by auto
  have r: "remove_at zs (l - 1) = butlast zs" using remove_at_last [OF ne] Suc.prems(1) by simp
  have "bwd_list (butlast zs) (l - 1) c = take (l - 1 - c) (butlast zs)"
    using Suc.prems by (intro Suc.IH) simp_all
  also have "\<dots> = take (l - Suc c) zs"
    using Suc.prems by (simp add: butlast_conv_take min_def)
  finally show ?case using r by simp
qed

lemma set_take_distinct:
  assumes "distinct zs" and "m \<le> length zs"
  shows "set (take m zs) = set zs - (!) zs ` {m..<length zs}"
proof -
  have dr: "set (drop m zs) = (!) zs ` {m..<length zs}"
  proof (intro set_eqI iffI)
    fix x assume "x \<in> set (drop m zs)"
    then obtain j where j: "j < length zs - m" "drop m zs ! j = x"
      unfolding in_set_conv_nth by auto
    then have "zs ! (m + j) = x" using assms(2) by simp
    moreover have "m + j \<in> {m..<length zs}" using j(1) by simp
    ultimately show "x \<in> (!) zs ` {m..<length zs}" by blast
  next
    fix x assume "x \<in> (!) zs ` {m..<length zs}"
    then obtain j where j: "m \<le> j" "j < length zs" "x = zs ! j" by auto
    then have "drop m zs ! (j - m) = x" by simp
    moreover have "j - m < length (drop m zs)" using j by simp
    ultimately show "x \<in> set (drop m zs)" unfolding in_set_conv_nth by blast
  qed
  have "distinct (take m zs @ drop m zs)" using assms(1) by simp
  then have dj: "set (take m zs) \<inter> set (drop m zs) = {}" by (simp only: distinct_append)
  have "set zs = set (take m zs) \<union> set (drop m zs)"
    using set_append [of "take m zs" "drop m zs"] by simp
  then show ?thesis using dj dr by auto
qed

lemma erase_range_list_props:
  assumes d: "distinct xs" and fl: "f \<le> l" and lN: "l \<le> length xs"
  shows "set (erase_range_list xs f l) = set xs - (!) xs ` {f..<l}"
    and "length (erase_range_list xs f l) = length xs - (l - f)"
proof -
  let ?c = "min (l - f) (length xs - l)"
  let ?zs = "fwd_list xs f ?c"
  have b: "f + 2 * ?c \<le> length xs" using fl lN unfolding min_def by (simp split: if_splits) arith
  note p = fwd_list_props [OF d b]
  have lz: "length ?zs = length xs - ?c" and dz: "distinct ?zs"
    and sz: "set ?zs = set xs - (!) xs ` {f..<f + ?c}"
    and nz: "\<forall>j. f + ?c \<le> j \<and> j < length xs - ?c \<longrightarrow> ?zs ! j = xs ! j"
    using p by blast+
  have both: "set (erase_range_list xs f l) = set xs - (!) xs ` {f..<l} \<and>
              length (erase_range_list xs f l) = length xs - (l - f)"
  proof (cases "l - f \<le> length xs - l")
    case True
    then have c: "?c = l - f" by simp
    have "erase_range_list xs f l = fwd_list xs f (l - f)"
      using fl by (simp add: erase_range_list_def Let_def c)
    then show ?thesis using sz lz fl unfolding c by simp
  next
    case False
    then have c: "?c = length xs - l" by simp
    have ll: "l = length ?zs" using lz lN unfolding c by simp
    have cl: "l - (f + ?c) \<le> l" by simp
    have fc: "f + ?c \<le> l" using False unfolding c by simp
    have "erase_range_list xs f l = bwd_list ?zs l (l - (f + ?c))"
      by (simp only: erase_range_list_def Let_def)
    also have "\<dots> = take (l - (l - (f + ?c))) ?zs" using ll cl by (rule bwd_list_take)
    also have "l - (l - (f + ?c)) = f + ?c" using fc by simp
    finally have e: "erase_range_list xs f l = take (f + ?c) ?zs" .
    have m: "f + ?c \<le> length ?zs" using fc ll by simp
    have im: "(!) ?zs ` {f + ?c..<length ?zs} = (!) xs ` {f + ?c..<l}"
      unfolding ll [symmetric]
    proof (rule image_cong [OF refl])
      fix j assume "j \<in> {f + ?c..<l}"
      then have "f + ?c \<le> j \<and> j < length xs - ?c" using lz ll by simp
      then show "?zs ! j = xs ! j" using nz by blast
    qed
    have un: "{f..<l} = {f..<f + ?c} \<union> {f + ?c..<l}" using fc by auto
    have "set (erase_range_list xs f l) = set ?zs - (!) ?zs ` {f + ?c..<length ?zs}"
      unfolding e using dz m by (rule set_take_distinct)
    also have "\<dots> = (set xs - (!) xs ` {f..<f + ?c}) - (!) xs ` {f + ?c..<l}"
      by (simp only: im sz)
    also have "\<dots> = set xs - (!) xs ` {f..<l}"
      unfolding un image_Un by auto
    finally have A: "set (erase_range_list xs f l) = set xs - (!) xs ` {f..<l}" .
    have "length (erase_range_list xs f l) = f + ?c" unfolding e using m by simp
    then have B: "length (erase_range_list xs f l) = length xs - (l - f)"
      using fl lN False unfolding c by simp
    show ?thesis using A B by simp
  qed
  show "set (erase_range_list xs f l) = set xs - (!) xs ` {f..<l}" using both by simp
  show "length (erase_range_list xs f l) = length xs - (l - f)" using both by simp
qed

lemma length_fwd_list: "length (fwd_list ys i c) = length ys - c"
  by (induction c arbitrary: ys i) (simp_all add: length_remove_at)

lemma erase_range_loops_spec:
  assumes v: "valid H st" and fl: "f \<le> l" and lN: "l \<le> length (m_values st)"
  shows "\<exists>st'. erase_range_loops H st f l = Some st' \<and> valid H st' \<and>
           m_values st' = erase_range_list (m_values st) f l"
proof -
  let ?N = "length (m_values st)"
  let ?c = "min (l - f) (?N - l)"
  have i1: "int l - int f = int (l - f)" using fl by simp
  have i2: "int (end_it st) - int l = int (?N - l)" using lN by (simp add: end_it_def)
  have mid: "int f + min (int l - int f) (int (end_it st) - int l) = int (f + ?c)"
    by (simp only: i1 i2 of_nat_min [symmetric] of_nat_add)
  have b: "f + 2 * ?c \<le> ?N + 1" using fl lN unfolding min_def by (simp split: if_splits) arith
  obtain st1 where a: "erase_range_fwd_loop H st (int f) (int (f + ?c)) = Some st1" "valid H st1"
    "m_values st1 = fwd_list (m_values st) f ?c"
    using fwd_loop_spec [OF v b] by blast
  have "l \<le> ?N - ?c" using fl lN unfolding min_def by (simp split: if_splits) arith
  then have l1: "l \<le> length (m_values st1)" by (simp only: a(3) length_fwd_list)
  have cb: "l - (f + ?c) \<le> l" by simp
  obtain st2 where c: "erase_range_bwd_loop H st1 (int l) (int (l - (l - (f + ?c)))) = Some st2"
    "valid H st2" "m_values st2 = bwd_list (m_values st1) l (l - (f + ?c))"
    using bwd_loop_spec [OF a(2) cb l1] by blast
  have "f + ?c \<le> l" using fl unfolding min_def by (simp split: if_splits) arith
  then have e: "l - (l - (f + ?c)) = f + ?c" by simp
  have c': "erase_range_bwd_loop H st1 (int l) (int (f + ?c)) = Some st2"
    using c(1) by (simp only: e)
  have "erase_range_loops H st f l = Some st2"
    unfolding erase_range_loops_def Let_def mid using a(1) c' by simp
  moreover have "m_values st2 = erase_range_list (m_values st) f l"
    using c(3) a(3) by (simp only: erase_range_list_def Let_def)
  ultimately show ?thesis using c(2) by blast
qed









lemma unat_back_index: "unat ((word_of_nat (N + 1) :: 32 word) - 1) = N mod 2 ^ 32"
proof -
  have "(word_of_nat (N + 1) :: 32 word) - 1 = word_of_nat N" by simp
  then show ?thesis by (simp add: unat_of_nat)
qed

lemma shape_buckets_update:
  assumes "shape st" and "m_buckets st = Some bs" and "length bs' = length bs"
  shows "shape (st\<lparr>m_buckets := Some bs'\<rparr>)"
  using assms by (simp add: shape_def)

lemma shape_values_update: "shape (st\<lparr>m_values := xs\<rparr>) = shape st"
  by (cases "m_buckets st") (simp_all add: shape_def)
















lemma valid_table_ctor: "valid H (table_ctor c)"
  by (simp add: valid_def table_ctor_def default_max_load_factor_def INITIAL_SHIFTS_def)

lemma valid_distinct:
  assumes "valid H st"
  shows "inj_on (keyf (m_values st)) {..<length (m_values st)}"
proof (cases "m_buckets st")
  case None
  then show ?thesis using validD_None(1) [OF assms None] by simp
next
  case (Some bs)
  show ?thesis using tinvD(6) [OF validD_Some(2) [OF assms Some]] .
qed

lemma find_key_present:
  assumes v: "valid H st" and i: "i < length (m_values st)"
  shows "find_key H st (fst (m_values st ! i)) = Some i"
proof -
  let ?k = "fst (m_values st ! i)"
  obtain r where r: "do_find H st ?k = Some r"
    "(r < length (m_values st) \<and> fst (m_values st ! r) = ?k) \<or>
     (r = length (m_values st) \<and> ?k \<notin> fst ` set (m_values st))"
    using do_find_spec [OF v, of ?k] by blast
  have "?k \<in> fst ` set (m_values st)" using i by (auto simp: set_conv_nth intro!: imageI)
  with r(2) have rr: "r < length (m_values st)" "fst (m_values st ! r) = ?k" by auto
  have "keyf (m_values st) r = keyf (m_values st) i" using rr(2) by (simp add: keyf_def)
  then have "r = i" using valid_distinct [OF v] rr(1) i by (auto simp: inj_on_def)
  then show ?thesis using r(1) by (simp add: find_key_def)
qed

lemma find_key_absent:
  assumes v: "valid H st" and k: "k \<notin> fst ` set (m_values st)"
  shows "find_key H st k = Some (end_it st)"
proof -
  obtain r where r: "do_find H st k = Some r"
    "(r < length (m_values st) \<and> fst (m_values st ! r) = k) \<or>
     (r = length (m_values st) \<and> k \<notin> fst ` set (m_values st))"
    using do_find_spec [OF v, of k] by blast
  have "r = length (m_values st)"
  proof (rule ccontr)
    assume "r \<noteq> length (m_values st)"
    with r(2) have "r < length (m_values st)" "fst (m_values st ! r) = k" by auto
    then have "k \<in> fst ` set (m_values st)" by (auto simp: set_conv_nth intro!: imageI)
    with k show False by simp
  qed
  then show ?thesis using r(1) by (simp add: find_key_def end_it_def)
qed



text \<open>
  Claim C10. \<open>find\<close> on a table whose value array is empty returns \<open>end()\<close> at once: the
  result does not depend on the hash function or on the metadata array, which may be the
  null array of a table that never allocated.
\<close>

theorem find_on_empty_table:
  assumes "empty_tbl st"
  shows "find_key H st key = Some (end_it st) \<and>
         find_key H' (st\<lparr>m_buckets := None\<rparr>) key = Some (end_it st) \<and>
         find_key H' (st\<lparr>m_buckets := Some bs\<rparr>) key = Some (end_it st)"
  using assms by (simp add: find_key_def do_find_def empty_tbl_def end_it_def)

theorem find_on_empty_table_witness:
  "empty_tbl t0 \<and> m_buckets t0 = None \<and> find_key H0 t0 5 = Some (end_it t0) \<and> end_it t0 = 0"
  using find_on_empty_table [of t0 H0 5]
  by (simp add: t0_def table_ctor_def empty_tbl_def end_it_def)

text \<open>
  Claim C8, as the code has it. The constructor ignores its bucket-count hint: for every
  hint the fresh table has no metadata array, bucket count 0 and capacity 0, and the
  initial shift amount 61.
\<close>

theorem table_ctor_ignores_hint:
  "(table_ctor c :: ('k, 'v) table) = table_ctor 0 \<and>
   m_buckets (table_ctor c :: ('k, 'v) table) = None \<and>
   bucket_count (table_ctor c :: ('k, 'v) table) = 0 \<and>
   m_max_bucket_capacity (table_ctor c :: ('k, 'v) table) = 0 \<and>
   m_shifts (table_ctor c :: ('k, 'v) table) = 61"
  by (simp add: table_ctor_def bucket_count_def INITIAL_SHIFTS_def)

text \<open>
  The claim as stated fails for the hint 1: the bucket count of the fresh table is 0,
  which is no power of two, and its capacity 0 does not cover the hint.
\<close>

theorem table_ctor_hint_counterexample:
  "bucket_count (table_ctor 1 :: (64 word, nat) table) = 0 \<and>
   \<not> (\<exists>j. bucket_count (table_ctor 1 :: (64 word, nat) table) = 2 ^ j) \<and>
   unat (m_max_bucket_capacity (table_ctor 1 :: (64 word, nat) table)) < 1"
  by (simp add: table_ctor_def bucket_count_def)

lemma valid_distinct_keys:
  assumes "valid H st"
  shows "distinct (map fst (m_values st))"
proof -
  have inj: "inj_on (keyf (m_values st)) {..<length (m_values st)}"
    using assms by (rule valid_distinct)
  show ?thesis
    unfolding distinct_conv_nth
  proof (intro allI impI)
    fix i j assume i: "i < length (map fst (m_values st))"
      and j: "j < length (map fst (m_values st))" and ne: "i \<noteq> j"
    show "map fst (m_values st) ! i \<noteq> map fst (m_values st) ! j"
    proof
      assume "map fst (m_values st) ! i = map fst (m_values st) ! j"
      then have "keyf (m_values st) i = keyf (m_values st) j"
        using i j by (simp add: keyf_def)
      then have "i = j" using inj i j unfolding inj_on_def by simp
      then show False using ne by simp
    qed
  qed
qed

lemma valid_map_of:
  assumes v: "valid H st" and i: "i < length (m_values st)"
  shows "map_of (m_values st) (fst (m_values st ! i)) = Some (snd (m_values st ! i))"
proof -
  have "(fst (m_values st ! i), snd (m_values st ! i)) \<in> set (m_values st)"
    using i by simp
  then show ?thesis using valid_distinct_keys [OF v] by (rule map_of_is_SomeI [rotated])
qed

lemma absent_map_of: "k \<notin> fst ` set xs \<Longrightarrow> map_of xs k = None"
  by (simp add: map_of_eq_None_iff)




text \<open>
  Claim C5. \<open>rehash(count)\<close> computes the shift amount from \<open>count\<close> alone and never
  looks at \<open>size()\<close>. With seven keys in the table (16 buckets), \<open>rehash(0)\<close> rebuilds
  the metadata with 8 buckets, whose capacity 6 does not admit the 7 live entries; the
  smallest admissible bucket count is 16.
\<close>

theorem rehash_zero_ignores_size:
  "(do { s1 \<leftarrow> insert_range H0 t0 (map (\<lambda>i. (word_of_nat i, i)) [0..<7]);
         s2 \<leftarrow> rehash H0 s1 0;
         Some (bucket_count s1, unat (m_max_bucket_capacity s1), bucket_count s2,
               unat (m_max_bucket_capacity s2), size_tbl s2) }) = Some (16, 12, 8, 6, 7)"
  by code_simp

lemma erase_key_unallocated: "m_buckets st = None \<Longrightarrow> erase_key H st k = None"
  by (simp add: erase_key_def do_erase_key_def next_while_less_def Let_def)

text \<open>
  What \<open>insert\<close> and \<open>erase(key)\<close> do on a valid table. \<open>insert(k, v)\<close> followed by
  \<open>find(k)\<close> gives the entry of \<open>k\<close>, which is \<open>(k, v)\<close> when \<open>k\<close> was absent and the entry
  \<open>k\<close> already had otherwise. Where the metadata array is allocated, \<open>erase(k)\<close> returns 1
  when \<open>k\<close> was present and 0 when it was not, it removes exactly the key \<open>k\<close>, and a
  following \<open>find(k)\<close> gives \<open>end()\<close>.
\<close>

lemma erase_key_allocated:
  assumes "valid H st" and "is_full st \<longrightarrow> 42 \<le> unat (m_shifts st)"
  shows "(\<exists>st1 it ins.
            insert_value H st (k, x) = Some (st1, it, ins) \<and> find_key H st1 k = Some it \<and>
            it < length (m_values st1) \<and>
            m_values st1 ! it = (k, case map_of (m_values st) k of None \<Rightarrow> x | Some v0 \<Rightarrow> v0)) \<and>
         (m_buckets st = None \<or>
          (\<exists>st2 r. erase_key H st k = Some (st2, r) \<and> valid H st2 \<and>
                  r = (if k \<in> fst ` set (m_values st) then 1 else 0) \<and>
                  fst ` set (m_values st2) = fst ` set (m_values st) - {k} \<and>
                  set (m_values st2) \<subseteq> set (m_values st) \<and>
                  find_key H st2 k = Some (end_it st2)))"
proof -
  obtain st1 it ins where e: "emplace H st (k, x) = Some (st1, it, ins)" "valid H st1"
    and c: "if k \<in> fst ` set (m_values st)
            then \<not> ins \<and> m_values st1 = m_values st \<and> it < length (m_values st) \<and>
                 fst (m_values st ! it) = k
            else ins \<and> m_values st1 = m_values st @ [(k, x)] \<and> it = length (m_values st)"
    using emplace_spec [OF assms, of k x] by blast
  have it: "it < length (m_values st1)" "fst (m_values st1 ! it) = k"
    using c by (auto split: if_splits)
  have f: "find_key H st1 k = Some it" using find_key_present [OF e(2) it(1)] it(2) by simp
  have m: "snd (m_values st1 ! it) = (case map_of (m_values st) k of None \<Rightarrow> x | Some v0 \<Rightarrow> v0)"
  proof (cases "k \<in> fst ` set (m_values st)")
    case True
    then have t: "m_values st1 = m_values st" "it < length (m_values st)"
      "fst (m_values st ! it) = k" using c by simp_all
    have "map_of (m_values st) k = Some (snd (m_values st ! it))"
      using valid_map_of [OF assms(1) t(2)] t(3) by simp
    then show ?thesis using t(1) by simp
  next
    case False
    then have "m_values st1 = m_values st @ [(k, x)]" "it = length (m_values st)"
      using c by simp_all
    then show ?thesis using absent_map_of [OF False] by simp
  qed
  have n: "m_values st1 ! it = (k, case map_of (m_values st) k of None \<Rightarrow> x | Some v0 \<Rightarrow> v0)"
    using m it(2) by (simp add: prod_eq_iff)
  have A: "\<exists>st1 it ins.
            insert_value H st (k, x) = Some (st1, it, ins) \<and> find_key H st1 k = Some it \<and>
            it < length (m_values st1) \<and>
            m_values st1 ! it = (k, case map_of (m_values st) k of None \<Rightarrow> x | Some v0 \<Rightarrow> v0)"
    using e(1) f it(1) n by (simp add: insert_value_def)
  have B: "m_buckets st = None \<or>
          (\<exists>st2 r. erase_key H st k = Some (st2, r) \<and> valid H st2 \<and>
                  r = (if k \<in> fst ` set (m_values st) then 1 else 0) \<and>
                  fst ` set (m_values st2) = fst ` set (m_values st) - {k} \<and>
                  set (m_values st2) \<subseteq> set (m_values st) \<and>
                  find_key H st2 k = Some (end_it st2))"
  proof (cases "m_buckets st")
    case None
    then show ?thesis by simp
  next
    case (Some bs)
    obtain st2 r where d: "do_erase_key H st k = Some (st2, r)" "valid H st2"
      and g: "if k \<in> fst ` set (m_values st)
            then r = 1 \<and> (\<exists>i<length (m_values st). fst (m_values st ! i) = k \<and>
                            m_values st2 = remove_at (m_values st) i)
            else r = 0 \<and> st2 = st"
      using do_erase_key_spec [OF assms(1) Some, of k] by blast
    have dk: "distinct (map fst (m_values st))" using assms(1) by (rule valid_distinct_keys)
    then have dv: "distinct (m_values st)" by (simp add: distinct_map)
    have ks: "fst ` set (m_values st2) = fst ` set (m_values st) - {k} \<and>
              set (m_values st2) \<subseteq> set (m_values st)"
    proof (cases "k \<in> fst ` set (m_values st)")
      case True
      then obtain i where i: "i < length (m_values st)" "fst (m_values st ! i) = k"
        "m_values st2 = remove_at (m_values st) i" using g by auto
      have "fst ` set (m_values st2) = fst ` set (m_values st) - {k}"
        using keys_remove_at [OF dk i(1)] i(2,3) by simp
      moreover have "set (m_values st2) \<subseteq> set (m_values st)"
        using set_remove_at [OF dv i(1)] i(3) by auto
      ultimately show ?thesis by simp
    next
      case False
      then show ?thesis using g by auto
    qed
    then have "k \<notin> fst ` set (m_values st2)" by auto
    then have "find_key H st2 k = Some (end_it st2)" using d(2) by (intro find_key_absent)
    moreover have "r = (if k \<in> fst ` set (m_values st) then 1 else 0)"
      using g by (simp split: if_splits)
    ultimately show ?thesis using Some d ks by (simp add: erase_key_def)
  qed
  show ?thesis using A B by (rule conjI)
qed

text \<open>
  Claim C3. \<open>do_erase_key\<close> has no \<open>empty()\<close> test of the kind \<open>do_find\<close> starts with. On
  the default-constructed table, which holds no key, the bucket pointer is null and
  \<open>next_while_less\<close> reads the bucket of the key through it: \<open>erase(5)\<close> does not return 0,
  it has no defined result, although \<open>find(5)\<close> returns \<open>end()\<close>.
\<close>

theorem erase_key_fresh_table_undefined:
  "m_buckets t0 = None \<and> m_values t0 = [] \<and> find_key H0 t0 5 = Some (end_it t0) \<and>
   erase_key H0 t0 5 = None"
  by (simp add: t0_def table_ctor_def find_key_def do_find_def empty_tbl_def end_it_def
      erase_key_def do_erase_key_def next_while_less_def Let_def)

lemma emplace_new:
  assumes v: "valid H st" and b: "b \<le> unat (m_shifts st)" "43 \<le> b"
    and k: "k \<notin> fst ` set (m_values st)"
  shows "\<exists>st'. emplace H st (k, x) = Some (st', length (m_values st), True) \<and> valid H st' \<and>
           m_values st' = m_values st @ [(k, x)] \<and> b - 1 \<le> unat (m_shifts st')"
proof -
  have g: "is_full st \<longrightarrow> 42 \<le> unat (m_shifts st)" using b by simp
  obtain st' it ins where e: "emplace H st (k, x) = Some (st', it, ins)" "valid H st'"
    "m_shifts st' = (if is_full st then m_shifts st - 1 else m_shifts st)"
    and c: "if k \<in> fst ` set (m_values st)
            then \<not> ins \<and> m_values st' = m_values st \<and> it < length (m_values st) \<and>
                 fst (m_values st ! it) = k
            else ins \<and> m_values st' = m_values st @ [(k, x)] \<and> it = length (m_values st)"
    using emplace_spec [OF v g, of k x] by blast
  have c': "ins" "m_values st' = m_values st @ [(k, x)]" "it = length (m_values st)"
    using c k by simp_all
  have "m_shifts st \<noteq> 0" using b by auto
  then have "unat (m_shifts st - 1) = unat (m_shifts st) - 1" by (simp add: unat_minus_one)
  then have "b - 1 \<le> unat (m_shifts st')" using e(3) b by (simp split: if_splits)
  then show ?thesis using e(1,2) c' by simp
qed

lemma table_of_three:
  "\<exists>st :: (64 word, nat) table.
     valid H0 st \<and> m_values st = [(1, 10), (2, 20), (3, 30)] \<and> 58 \<le> unat (m_shifts st)"
proof -
  have v0: "valid H0 t0" unfolding t0_def by (rule valid_table_ctor)
  have s0: "61 \<le> unat (m_shifts t0)" by (simp add: t0_def table_ctor_def INITIAL_SHIFTS_def)
  have m0: "m_values t0 = []" by (simp add: t0_def table_ctor_def)
  obtain st1 :: "(64 word, nat) table"
    where a: "valid H0 st1" "m_values st1 = [(1, 10)]" "60 \<le> unat (m_shifts st1)"
    using emplace_new [OF v0 s0, of 1 10] m0 by auto
  obtain st2 :: "(64 word, nat) table" where b: "valid H0 st2" "m_values st2 = [(1, 10), (2, 20)]" "59 \<le> unat (m_shifts st2)"
    using emplace_new [OF a(1) a(3), of 2 20] a(2) by auto
  obtain st3 :: "(64 word, nat) table" where c: "valid H0 st3" "m_values st3 = [(1, 10), (2, 20), (3, 30)]"
    "58 \<le> unat (m_shifts st3)"
    using emplace_new [OF b(1) b(3), of 3 30] b(2) by auto
  show ?thesis using c by blast
qed

text \<open>
  The two loops of \<open>erase(first, last)\<close>. On a valid table and a range
  \<open>first \<le> last \<le> end()\<close> they run to completion and leave a valid table whose entries are
  exactly the entries that were outside the positions \<open>[first, last)\<close>: a \<open>find\<close> of the key
  of an entry of the range gives \<open>end()\<close>, and a \<open>find\<close> of the key of any other entry gives
  that same entry, key and mapped value.
\<close>

lemma erase_range_loops_remove_exactly:
  assumes "valid H st" and "f \<le> l" and "l \<le> length (m_values st)"
  shows "\<exists>st'. erase_range_loops H st f l = Some st' \<and> valid H st' \<and>
           length (m_values st') = length (m_values st) - (l - f) \<and>
           set (m_values st') = set (m_values st) - (!) (m_values st) ` {f..<l} \<and>
           (\<forall>j<length (m_values st).
              if f \<le> j \<and> j < l
              then find_key H st' (fst (m_values st ! j)) = Some (end_it st')
              else (\<exists>it<length (m_values st').
                      find_key H st' (fst (m_values st ! j)) = Some it \<and>
                      m_values st' ! it = m_values st ! j))"
proof -
  let ?vals = "m_values st" and ?N = "length (m_values st)"
  obtain st' where e: "erase_range_loops H st f l = Some st'" "valid H st'"
    "m_values st' = erase_range_list ?vals f l"
    using erase_range_loops_spec [OF assms] by blast
  have dk: "distinct (map fst ?vals)" using assms(1) by (rule valid_distinct_keys)
  then have dv: "distinct ?vals" by (simp add: distinct_map)
  have S: "set (m_values st') = set ?vals - (!) ?vals ` {f..<l}"
    unfolding e(3) using dv assms(2,3) by (rule erase_range_list_props(1))
  have L: "length (m_values st') = ?N - (l - f)"
    unfolding e(3) using dv assms(2,3) by (rule erase_range_list_props(2))
  have keq: "\<And>a b. a < ?N \<Longrightarrow> b < ?N \<Longrightarrow> fst (?vals ! a) = fst (?vals ! b) \<Longrightarrow> a = b"
  proof -
    fix a b assume ab: "a < ?N" "b < ?N" "fst (?vals ! a) = fst (?vals ! b)"
    then have "keyf ?vals a = keyf ?vals b" by (simp add: keyf_def)
    then show "a = b" using valid_distinct [OF assms(1)] ab(1,2) unfolding inj_on_def by simp
  qed
  have F: "\<forall>j<?N. if f \<le> j \<and> j < l
              then find_key H st' (fst (?vals ! j)) = Some (end_it st')
              else (\<exists>it<length (m_values st').
                      find_key H st' (fst (?vals ! j)) = Some it \<and>
                      m_values st' ! it = ?vals ! j)"
  proof (intro allI impI)
    fix j assume j: "j < ?N"
    show "if f \<le> j \<and> j < l
              then find_key H st' (fst (?vals ! j)) = Some (end_it st')
              else (\<exists>it<length (m_values st').
                      find_key H st' (fst (?vals ! j)) = Some it \<and>
                      m_values st' ! it = ?vals ! j)"
    proof (cases "f \<le> j \<and> j < l")
      case True
      have "fst (?vals ! j) \<notin> fst ` set (m_values st')"
      proof
        assume "fst (?vals ! j) \<in> fst ` set (m_values st')"
        then obtain p where p: "p \<in> set (m_values st')" "fst p = fst (?vals ! j)" by auto
        then have pin: "p \<in> set ?vals" and pout: "p \<notin> (!) ?vals ` {f..<l}" using S by auto
        obtain m where m: "m < ?N" "?vals ! m = p" using pin unfolding in_set_conv_nth by blast
        have "m = j" using keq [OF m(1) j] m(2) p(2) by simp
        then have "p \<in> (!) ?vals ` {f..<l}" using m(2) True by auto
        then show False using pout by simp
      qed
      then have "find_key H st' (fst (?vals ! j)) = Some (end_it st')"
        using e(2) by (intro find_key_absent)
      then show ?thesis using True by simp
    next
      case False
      have "?vals ! j \<notin> (!) ?vals ` {f..<l}"
      proof
        assume "?vals ! j \<in> (!) ?vals ` {f..<l}"
        then obtain m where m: "f \<le> m" "m < l" "?vals ! j = ?vals ! m" by auto
        have "m < ?N" using m(2) assms(3) by simp
        then have "j = m" using dv j m(3) by (simp add: nth_eq_iff_index_eq)
        then show False using False m(1,2) by simp
      qed
      then have "?vals ! j \<in> set (m_values st')" using S j by simp
      then obtain it where it: "it < length (m_values st')" "m_values st' ! it = ?vals ! j"
        unfolding in_set_conv_nth by blast
      have "find_key H st' (fst (m_values st' ! it)) = Some it"
        using e(2) it(1) by (rule find_key_present)
      then have "find_key H st' (fst (?vals ! j)) = Some it" by (simp only: it(2))
      then show ?thesis using False it by auto
    qed
  qed
  show ?thesis using e(1,2) L S F by blast
qed

lemma erase_range_undefined: "erase_range H st f l = None"
  by (cases "erase_range_loops H st f l") (simp_all add: erase_range_def)

text \<open>
  Claim C4. \<open>erase(first, last)\<close> is declared to return an iterator and has no return
  statement. On the map built by inserting \<open>(1, 10)\<close>, \<open>(2, 20)\<close>, \<open>(3, 30)\<close>, the two loops of
  \<open>erase(begin() + 1, begin() + 2)\<close> leave the entries \<open>(1, 10)\<close> and \<open>(3, 30)\<close>, as the claim
  says, and then control flows off the end of the function: the call has no defined
  result.
\<close>

theorem erase_range_flows_off_end:
  "(do { s \<leftarrow> insert_range H0 t0 [(1, 10), (2, 20), (3, 30)];
         s' \<leftarrow> erase_range_loops H0 s 1 2;
         Some (m_values s') }) = Some [(1, 10), (3, 30)] \<and>
   (do { s \<leftarrow> insert_range H0 t0 [(1, 10), (2, 20), (3, 30)];
         erase_range H0 s 1 2 }) = None"
  by code_simp












end
